theory Spec2Isabelle
  imports
    Complex_Main
    "HOL-Library.AList"
    "HOL-Library.Char_ord"
    "HOL-Library.List_Lexorder"
begin

section \<open>The event store of \<open>src/index.ts\<close> over a transactional key-value table\<close>

text \<open>
  The store of \<open>src/index.ts\<close> keeps, for every stream, one version record and one
  record per event in a table with the two-part key \<open>(PK, SK)\<close>.  \<open>write\<close> submits an
  \<open>Update\<close> of the version record and a \<open>Put\<close> of the event record as one transaction;
  \<open>read\<close> queries all records of the stream and splits them into the version and the
  events.

  Three collaborators of the source are not part of it and are modelled here, next to the
  code that calls them:
  \<^item> \<open>JSON.stringify\<close> and \<open>JSON.parse\<close>: parameters of \<open>write_with\<close> and \<open>read_with\<close>,
    for the properties that hold whatever they compute, and a printer and a parser of a
    fragment of JSON, for evaluating the store at the events of the tests;
  \<^item> \<open>ksuid.randomSync()\<close>: the identifier it returns in a call of \<open>write\<close> is an
    argument of \<open>eventInsert\<close> and of \<open>write\<close>, so that a property holds for whatever it
    returns;
  \<^item> the table behind the client: \<open>transactWriteItems\<close> and \<open>query\<close>, for the expressions
    the source sends, on the content of the one table the store was constructed with.

  Outside the model: \<open>createTable\<close> (the table is taken to exist), the \<open>console.log\<close> of
  \<open>read\<close>, the validation, size limits and paging of requests, failures of the connection,
  and the numbers \<open>NaN\<close> and \<open>Infinity\<close> as an expected version.
\<close>

subsection \<open>Payloads and their JSON text\<close>

text \<open>
  The payload of an event (\<open>data: T\<close>, \<open>T = unknown\<close>) is a JavaScript value.  This
  section models the two built-in functions on a fragment, enough for the events of the
  tests of the source: the payloads built from \<open>null\<close>, booleans, the number \<open>NaN\<close>, the
  integers of magnitude below \<open>2^53\<close> (where a double is exact and is printed in plain
  digits), strings of ASCII characters, arrays and objects (the list of their own
  properties in enumeration order, without keys that are array indices), and the texts
  without a fraction or an exponent in a numeral and without a \<open>\u\<close> escape above \<open>00ff\<close>.
  On the fragment \<open>JSON_stringify\<close> and \<open>JSON_parse\<close> compute what the built-in functions
  compute.  Outside it they are not the built-in functions: \<open>JSON_parse\<close> refuses a
  numeral such as \<open>1.5\<close>, and \<open>JSON_stringify\<close> prints an integer from \<open>10^21\<close> in plain
  digits.  Values on which \<open>JSON.stringify\<close> returns \<open>undefined\<close> or throws are not
  payloads here.  The properties that quantify over all payloads or over all stored texts
  are stated for \<open>write_with\<close> and \<open>read_with\<close> below, where the built-in functions are
  parameters.
\<close>

datatype js =
    JNull
  | JBool bool
  | JNum int
  | JNaN
  | JStr string
  | JArr "js list"
  | JObj "(string \<times> js) list"

definition dquote :: char where
  "dquote = CHR 0x22"

definition backslash :: char where
  "backslash = CHR 0x5C"

definition digit_char :: "nat \<Rightarrow> char" where
  "digit_char d = char_of (48 + d)"

definition is_digit :: "char \<Rightarrow> bool" where
  "is_digit c = (48 \<le> (of_char c :: nat) \<and> (of_char c :: nat) \<le> 57)"

definition digit_val :: "char \<Rightarrow> nat" where
  "digit_val c = of_char c - 48"

text \<open>\<open>Number.prototype.toString\<close> on an integral number: decimal digits, \<open>-\<close> first.\<close>

function show_nat :: "nat \<Rightarrow> string" where
  "show_nat n = (if n < 10 then [digit_char n] else show_nat (n div 10) @ [digit_char (n mod 10)])"
  by pat_completeness auto
termination
  by (relation "measure id") auto

declare show_nat.simps [simp del]

definition show_int :: "int \<Rightarrow> string" where
  "show_int i = (if i < 0 then CHR ''-'' # show_nat (nat (- i)) else show_nat (nat i))"

text \<open>\<open>QuoteJSONString\<close>: the escapes \<open>JSON.stringify\<close> writes.\<close>

definition hex_char :: "nat \<Rightarrow> char" where
  "hex_char d = (if d < 10 then char_of (48 + d) else char_of (87 + d))"

definition escape_char :: "char \<Rightarrow> string" where
  "escape_char c =
     (if c = dquote then [backslash, dquote]
      else if c = backslash then [backslash, backslash]
      else if c = CHR 0x08 then [backslash, CHR ''b'']
      else if c = CHR 0x0C then [backslash, CHR ''f'']
      else if c = CHR 0x0A then [backslash, CHR ''n'']
      else if c = CHR 0x0D then [backslash, CHR ''r'']
      else if c = CHR 0x09 then [backslash, CHR ''t'']
      else if (of_char c :: nat) < 32 then
        [backslash, CHR ''u'', CHR ''0'', CHR ''0'',
         hex_char (of_char c div 16), hex_char (of_char c mod 16)]
      else [c])"

definition quote :: "string \<Rightarrow> string" where
  "quote s = dquote # concat (map escape_char s) @ [dquote]"

fun join :: "string list \<Rightarrow> string" where
  "join [] = []"
| "join [x] = x"
| "join (x # y # ys) = x @ CHR '','' # join (y # ys)"

text \<open>
  \<open>JSON.stringify(value)\<close>: \<open>NaN\<close> is written as \<open>null\<close>, an array as its elements
  between brackets, an object as its properties \<open>"key":value\<close> between braces.
\<close>

fun JSON_stringify :: "js \<Rightarrow> string" where
  "JSON_stringify JNull = ''null''"
| "JSON_stringify (JBool b) = (if b then ''true'' else ''false'')"
| "JSON_stringify (JNum i) = show_int i"
| "JSON_stringify JNaN = ''null''"
| "JSON_stringify (JStr s) = quote s"
| "JSON_stringify (JArr vs) = CHR ''['' # join (map JSON_stringify vs) @ '']''"
| "JSON_stringify (JObj kvs) =
     CHR ''{'' # join (map (\<lambda>(k, v). quote k @ CHR '':'' # JSON_stringify v) kvs) @ ''}''"

text \<open>
  \<open>JSON.parse(text)\<close> on the fragment: a recursive-descent parser of the JSON grammar
  with integer numerals.  A numeral with a fraction or an exponent and a \<open>\u\<close> escape
  above \<open>00ff\<close> have no value among the payloads of the fragment; this parser refuses
  them, where \<open>JSON.parse\<close> accepts them.
\<close>

definition is_ws :: "char \<Rightarrow> bool" where
  "is_ws c = (c = CHR '' '' \<or> c = CHR 0x09 \<or> c = CHR 0x0A \<or> c = CHR 0x0D)"

definition skip_ws :: "string \<Rightarrow> string" where
  "skip_ws s = dropWhile is_ws s"

definition hex_val :: "char \<Rightarrow> nat option" where
  "hex_val c =
     (let n = (of_char c :: nat) in
      if 48 \<le> n \<and> n \<le> 57 then Some (n - 48)
      else if 97 \<le> n \<and> n \<le> 102 then Some (n - 87)
      else if 65 \<le> n \<and> n \<le> 70 then Some (n - 55)
      else None)"

definition hex4 :: "char \<Rightarrow> char \<Rightarrow> char \<Rightarrow> char \<Rightarrow> char option" where
  "hex4 a b c d =
     (case (hex_val a, hex_val b, hex_val c, hex_val d) of
        (Some 0, Some 0, Some h, Some l) \<Rightarrow> Some (char_of (16 * h + l))
      | _ \<Rightarrow> None)"

definition unescape :: "char \<Rightarrow> char option" where
  "unescape e =
     (if e = dquote then Some dquote
      else if e = backslash then Some backslash
      else if e = CHR ''/'' then Some CHR ''/''
      else if e = CHR ''b'' then Some (CHR 0x08)
      else if e = CHR ''f'' then Some (CHR 0x0C)
      else if e = CHR ''n'' then Some (CHR 0x0A)
      else if e = CHR ''r'' then Some (CHR 0x0D)
      else if e = CHR ''t'' then Some (CHR 0x09)
      else None)"

definition consed :: "'a \<Rightarrow> ('a list \<times> string) option \<Rightarrow> ('a list \<times> string) option" where
  "consed x r = (case r of None \<Rightarrow> None | Some (xs, rest) \<Rightarrow> Some (x # xs, rest))"

text \<open>The characters of a string literal after its opening quote, up to the closing one.\<close>

fun parse_chars :: "string \<Rightarrow> (string \<times> string) option" where
  "parse_chars [] = None"
| "parse_chars (c # r) =
     (if c = dquote then Some ([], r)
      else if c = backslash then
        (case r of
           [] \<Rightarrow> None
         | e # r1 \<Rightarrow>
             if e = CHR ''u'' then
               (case r1 of
                  a # b # x # y # r2 \<Rightarrow>
                    (case hex4 a b x y of
                       None \<Rightarrow> None
                     | Some ch \<Rightarrow> consed ch (parse_chars r2))
                | _ \<Rightarrow> None)
             else
               (case unescape e of
                  None \<Rightarrow> None
                | Some ch \<Rightarrow> consed ch (parse_chars r1)))
      else if (of_char c :: nat) < 32 then None
      else consed c (parse_chars r))"

definition digits_val :: "string \<Rightarrow> nat" where
  "digits_val ds = foldl (\<lambda>acc c. 10 * acc + digit_val c) 0 ds"

text \<open>An unsigned integer numeral: \<open>0\<close>, or a non-zero digit followed by digits.\<close>

definition parse_nat :: "string \<Rightarrow> (nat \<times> string) option" where
  "parse_nat s =
     (case s of
        [] \<Rightarrow> None
      | c # r \<Rightarrow>
          if \<not> is_digit c then None
          else if c = CHR ''0'' then Some (0, r)
          else Some (digits_val (takeWhile is_digit s), dropWhile is_digit s))"

definition no_fraction :: "string \<Rightarrow> bool" where
  "no_fraction r =
     (case r of [] \<Rightarrow> True | c # _ \<Rightarrow> c \<noteq> CHR ''.'' \<and> c \<noteq> CHR ''e'' \<and> c \<noteq> CHR ''E'')"

definition parse_number :: "string \<Rightarrow> (js \<times> string) option" where
  "parse_number s =
     (case s of
        [] \<Rightarrow> None
      | c # r \<Rightarrow>
          if c = CHR ''-'' then
            (case parse_nat r of
               None \<Rightarrow> None
             | Some (n, rest) \<Rightarrow> if no_fraction rest then Some (JNum (- int n), rest) else None)
          else
            (case parse_nat s of
               None \<Rightarrow> None
             | Some (n, rest) \<Rightarrow> if no_fraction rest then Some (JNum (int n), rest) else None))"

definition literal :: "string \<Rightarrow> js \<Rightarrow> string \<Rightarrow> (js \<times> string) option" where
  "literal w v s =
     (if take (length w) s = w then Some (v, drop (length w) s) else None)"

text \<open>
  A property set twice keeps its first position and takes the later value, as
  \<open>JSON.parse\<close> builds an object from a text with a repeated key.
\<close>

definition make_object :: "(string \<times> js) list \<Rightarrow> js" where
  "make_object kvs = JObj (foldl (\<lambda>acc (k, v). AList.update k v acc) [] kvs)"

text \<open>
  The recursion of the grammar is bounded by a counter that every call decreases;
  \<open>JSON_parse\<close> starts it above twice the length of the text, which no text exhausts
  (every second call at least consumes a character).
\<close>

fun parse_value :: "nat \<Rightarrow> string \<Rightarrow> (js \<times> string) option"
  and parse_elements :: "nat \<Rightarrow> string \<Rightarrow> (js list \<times> string) option"
  and parse_members :: "nat \<Rightarrow> string \<Rightarrow> ((string \<times> js) list \<times> string) option"
where
  "parse_value 0 s = None"
| "parse_value (Suc n) s =
     (case skip_ws s of
        [] \<Rightarrow> None
      | c # r \<Rightarrow>
          if c = CHR ''n'' then literal ''null'' JNull (c # r)
          else if c = CHR ''t'' then literal ''true'' (JBool True) (c # r)
          else if c = CHR ''f'' then literal ''false'' (JBool False) (c # r)
          else if c = dquote then
            (case parse_chars r of None \<Rightarrow> None | Some (str, rest) \<Rightarrow> Some (JStr str, rest))
          else if c = CHR ''['' then
            (case skip_ws r of
               [] \<Rightarrow> None
             | d # r1 \<Rightarrow>
                 if d = CHR '']'' then Some (JArr [], r1)
                 else (case parse_elements n r of
                         None \<Rightarrow> None
                       | Some (vs, rest) \<Rightarrow> Some (JArr vs, rest)))
          else if c = CHR ''{'' then
            (case skip_ws r of
               [] \<Rightarrow> None
             | d # r1 \<Rightarrow>
                 if d = CHR ''}'' then Some (JObj [], r1)
                 else (case parse_members n r of
                         None \<Rightarrow> None
                       | Some (kvs, rest) \<Rightarrow> Some (make_object kvs, rest)))
          else parse_number (c # r))"
| "parse_elements 0 s = None"
| "parse_elements (Suc n) s =
     (case parse_value n s of
        None \<Rightarrow> None
      | Some (v, r) \<Rightarrow>
          (case skip_ws r of
             [] \<Rightarrow> None
           | c # r1 \<Rightarrow>
               if c = CHR '','' then consed v (parse_elements n r1)
               else if c = CHR '']'' then Some ([v], r1)
               else None))"
| "parse_members 0 s = None"
| "parse_members (Suc n) s =
     (case skip_ws s of
        [] \<Rightarrow> None
      | q # r \<Rightarrow>
          if q \<noteq> dquote then None
          else
            (case parse_chars r of
               None \<Rightarrow> None
             | Some (k, r1) \<Rightarrow>
                 (case skip_ws r1 of
                    [] \<Rightarrow> None
                  | c # r2 \<Rightarrow>
                      if c \<noteq> CHR '':'' then None
                      else
                        (case parse_value n r2 of
                           None \<Rightarrow> None
                         | Some (v, r3) \<Rightarrow>
                             (case skip_ws r3 of
                                [] \<Rightarrow> None
                              | d # r4 \<Rightarrow>
                                  if d = CHR '','' then consed (k, v) (parse_members n r4)
                                  else if d = CHR ''}'' then Some ([(k, v)], r4)
                                  else None)))))"

datatype error =
    ConcurrencyError
  | BackendError
  | TypeError
  | SyntaxError

definition JSON_parse :: "string \<Rightarrow> error + js" where
  "JSON_parse s =
     (case parse_value (2 * length s + 2) s of
        None \<Rightarrow> Inl SyntaxError
      | Some (v, rest) \<Rightarrow> if skip_ws rest = [] then Inr v else Inl SyntaxError)"

subsection \<open>The table: attribute values, items, conditional updates, transactions\<close>

text \<open>
  The table is the backend of the specification (section 6): an atomic conditional write
  of several items and a range query by partition key in ascending order of the sort
  key.  The expressions of the requests mean what they mean to DynamoDB, the backend of
  the source.

  An attribute value is the object \<open>{S: string}\<close> or \<open>{N: number}\<close>.  The number of an \<open>N\<close>
  value is kept as a rational, which every finite JavaScript number is; its decimal text
  (\<open>'1'\<close>, \<open>expectedVersion.toString()\<close>) is not modelled.  An item maps attribute names to
  values; the table of the store holds items, at most one per key \<open>(PK, SK)\<close>.
\<close>

datatype attr = S string | N rat

type_synonym item = "(string \<times> attr) list"

type_synonym table = "item list"

definition key_of :: "item \<Rightarrow> attr option \<times> attr option" where
  "key_of i = (map_of i ''PK'', map_of i ''SK'')"

definition get_item :: "table \<Rightarrow> item \<Rightarrow> item option" where
  "get_item t k = find (\<lambda>i. key_of i = key_of k) t"

definition put_item :: "item \<Rightarrow> table \<Rightarrow> table" where
  "put_item it t =
     (if get_item t it = None then t @ [it]
      else map (\<lambda>i. if key_of i = key_of it then it else i) t)"

record update =
  TableName :: string
  Key :: item
  UpdateExpression :: string
  ExpressionAttributeNames :: "(string \<times> string) list"
  ExpressionAttributeValues :: "(string \<times> attr) list"
  ConditionExpression :: "string option"

record put =
  PutTableName :: string
  Item :: item

datatype transact_item = Update update | Put put

text \<open>
  The two condition expressions the source sends.  \<open>attribute_not_exists(PK)\<close> holds
  when no item with the key exists (an item that exists has its key attributes).
  \<open>#version = :expected\<close> holds when the item exists and its attribute named by
  \<open>#version\<close> is the number \<open>:expected\<close>; against a missing item or a missing attribute a
  comparison is false.  Any other expression is refused as a malformed request.
\<close>

definition condition_holds :: "update \<Rightarrow> item option \<Rightarrow> error + bool" where
  "condition_holds u existing =
     (case ConditionExpression u of
        None \<Rightarrow> Inr True
      | Some e \<Rightarrow>
          if e = ''attribute_not_exists(PK)'' then
            Inr (case existing of None \<Rightarrow> True | Some i \<Rightarrow> map_of i ''PK'' = None)
          else if e = ''#version = :expected'' then
            (case (map_of (ExpressionAttributeNames u) ''#version'',
                   map_of (ExpressionAttributeValues u) '':expected'') of
               (Some a, Some v) \<Rightarrow>
                 Inr (case existing of None \<Rightarrow> False | Some i \<Rightarrow> map_of i a = Some v)
             | _ \<Rightarrow> Inl BackendError)
          else Inl BackendError)"

text \<open>
  The update expression the source sends, \<open>ADD #version :increment\<close>: a missing item is
  created from the key with the attribute set to the increment, a missing attribute is
  set to the increment, a number is increased by it; adding to a string is refused.
\<close>

definition add_attribute :: "update \<Rightarrow> item option \<Rightarrow> error + item" where
  "add_attribute u existing =
     (if UpdateExpression u \<noteq> ''ADD #version :increment'' then Inl BackendError
      else
        (case (map_of (ExpressionAttributeNames u) ''#version'',
               map_of (ExpressionAttributeValues u) '':increment'') of
           (Some a, Some (N inc)) \<Rightarrow>
             (case existing of
                None \<Rightarrow> Inr (AList.update a (N inc) (Key u))
              | Some i \<Rightarrow>
                  (case map_of i a of
                     None \<Rightarrow> Inr (AList.update a (N inc) i)
                   | Some (N v) \<Rightarrow> Inr (AList.update a (N (v + inc)) i)
                   | Some (S _) \<Rightarrow> Inl BackendError))
         | _ \<Rightarrow> Inl BackendError))"

definition apply_update :: "update \<Rightarrow> table \<Rightarrow> error + table" where
  "apply_update u t =
     (let existing = get_item t (Key u) in
      case condition_holds u existing of
        Inl e \<Rightarrow> Inl e
      | Inr False \<Rightarrow> Inl ConcurrencyError
      | Inr True \<Rightarrow>
          (case add_attribute u existing of
             Inl e \<Rightarrow> Inl e
           | Inr i \<Rightarrow> Inr (put_item i t)))"

fun apply_item :: "transact_item \<Rightarrow> table \<Rightarrow> error + table" where
  "apply_item (Update u) t = apply_update u t"
| "apply_item (Put p) t = Inr (put_item (Item p) t)"

fun apply_items :: "transact_item list \<Rightarrow> table \<Rightarrow> error + table" where
  "apply_items [] t = Inr t"
| "apply_items (x # xs) t =
     (case apply_item x t of Inl e \<Rightarrow> Inl e | Inr t' \<Rightarrow> apply_items xs t')"

fun target :: "transact_item \<Rightarrow> attr option \<times> attr option" where
  "target (Update u) = key_of (Key u)"
| "target (Put p) = key_of (Item p)"

text \<open>
  \<open>transactWriteItems\<close>: the items are applied in order to a copy of the table, which
  replaces the table only when every one of them went through; a failed condition cancels
  the transaction (the \<open>ConcurrencyError\<close> of the specification, DynamoDB's
  \<open>TransactionCanceledException\<close>).  Two items with the same target are refused.  The
  result is the outcome of the call and the table after it.
\<close>

definition transactWriteItems :: "transact_item list \<Rightarrow> table \<Rightarrow> (error + unit) \<times> table" where
  "transactWriteItems TransactItems t =
     (if \<not> distinct (map target TransactItems) then (Inl BackendError, t)
      else
        (case apply_items TransactItems t of
           Inl e \<Rightarrow> (Inl e, t)
         | Inr t' \<Rightarrow> (Inr (), t')))"

text \<open>
  \<open>query\<close> with the key condition \<open>PK = :stream\<close>: the items of the partition, in
  ascending order of their sort key.
\<close>

definition sort_key_of :: "item \<Rightarrow> string" where
  "sort_key_of i = (case map_of i ''SK'' of Some (S k) \<Rightarrow> k | _ \<Rightarrow> [])"

definition query :: "string \<Rightarrow> table \<Rightarrow> item list" where
  "query stream t = sort_key sort_key_of (filter (\<lambda>i. map_of i ''PK'' = Some (S stream)) t)"

subsection \<open>The store\<close>

text \<open>
  \<open>interface Event<T>\<close>, and the events whose payload is one of the payloads modelled
  above.
\<close>

record 'd Event =
  type :: string
  data :: 'd

type_synonym event = "js Event"

text \<open>
  \<open>events\<close> is a generator function that the caller runs after \<open>read\<close> has returned:
  it is a function of the table as it is when the caller runs it, to the events it
  yields or the error it raises.
\<close>

record 'd EventStream =
  name :: string
  version :: int
  events :: "table \<Rightarrow> error + 'd Event list"

text \<open>\<open>enum Version { Any = -1, None = -2 }\<close>\<close>

definition Version_Any :: rat where
  "Version_Any = - 1"

definition Version_None :: rat where
  "Version_None = - 2"

definition metadataUpdate :: "string \<Rightarrow> string \<Rightarrow> rat \<Rightarrow> transact_item" where
  "metadataUpdate tbl stream expectedVersion =
     (let u0 = \<lparr> TableName = tbl,
                 Key = [(''PK'', S stream), (''SK'', S ''_METADATA'')],
                 UpdateExpression = ''ADD #version :increment'',
                 ExpressionAttributeNames = [(''#version'', ''VERSION'')],
                 ExpressionAttributeValues = [('':increment'', N 1)],
                 ConditionExpression = None \<rparr>;
          u1 = (if expectedVersion = Version_None
                then u0\<lparr> ConditionExpression := Some ''attribute_not_exists(PK)'' \<rparr>
                else u0);
          u2 = (if expectedVersion > - 1
                then u1\<lparr> ConditionExpression := Some ''#version = :expected'',
                         ExpressionAttributeValues :=
                           AList.update '':expected'' (N expectedVersion)
                             (ExpressionAttributeValues u1) \<rparr>
                else u1)
      in Update u2)"

text \<open>\<open>eventInsert\<close>; \<open>ksuid\<close> is the string \<open>ksuid.randomSync()\<close> returned in this call.\<close>

definition eventInsert :: "string \<Rightarrow> string \<Rightarrow> event \<Rightarrow> string \<Rightarrow> transact_item" where
  "eventInsert tbl stream ev ksuid =
     Put \<lparr> PutTableName = tbl,
           Item = [(''PK'', S stream),
                   (''SK'', S (''EVENT-'' @ ksuid)),
                   (''TYPE'', S (type ev)),
                   (''DATA'', S (JSON_stringify (data ev)))] \<rparr>"

definition "write" :: "string \<Rightarrow> string \<Rightarrow> event \<Rightarrow> rat \<Rightarrow> string \<Rightarrow> table \<Rightarrow> (error + unit) \<times> table" where
  "write tbl stream ev expectedVersion ksuid t =
     transactWriteItems
       [metadataUpdate tbl stream expectedVersion, eventInsert tbl stream ev ksuid] t"

text \<open>
  \<open>x.S\<close> and \<open>x.N\<close> of an attribute value (\<open>undefined\<close> on the other kind), \<open>s || ''\<close>,
  and \<open>parseInt\<close> of the text of a number, which stops at the decimal point.
\<close>

fun get_S :: "attr \<Rightarrow> string option" where
  "get_S (S s) = Some s"
| "get_S (N _) = None"

fun get_N :: "attr \<Rightarrow> rat option" where
  "get_N (N x) = Some x"
| "get_N (S _) = None"

definition or_empty :: "string option \<Rightarrow> string" where
  "or_empty x = (case x of None \<Rightarrow> [] | Some s \<Rightarrow> s)"

definition or_zero :: "rat option \<Rightarrow> rat" where
  "or_zero x = (case x of None \<Rightarrow> 0 | Some n \<Rightarrow> n)"

definition parseInt :: "rat \<Rightarrow> int" where
  "parseInt x = (if x < 0 then - \<lfloor>- x\<rfloor> else \<lfloor>x\<rfloor>)"

text \<open>
  The loop of \<open>read\<close> over \<open>result.Items\<close>; \<open>ver\<close> and \<open>evs\<close> are its locals \<open>version\<close>
  and \<open>events\<close>.  Reading \<open>.S\<close> of a missing \<open>TYPE\<close> or \<open>DATA\<close> attribute is a
  \<open>TypeError\<close>; the type is evaluated before the payload is parsed.
\<close>

fun read_loop :: "item list \<Rightarrow> int \<Rightarrow> event list \<Rightarrow> error + int \<times> event list" where
  "read_loop [] ver evs = Inr (ver, evs)"
| "read_loop (item # items) ver evs =
     (case map_of item ''VERSION'' of
        Some v \<Rightarrow> read_loop items (parseInt (or_zero (get_N v))) evs
      | None \<Rightarrow>
          (case map_of item ''TYPE'' of
             None \<Rightarrow> Inl TypeError
           | Some ty \<Rightarrow>
               (case map_of item ''DATA'' of
                  None \<Rightarrow> Inl TypeError
                | Some d \<Rightarrow>
                    (case JSON_parse (or_empty (get_S d)) of
                       Inl e \<Rightarrow> Inl e
                     | Inr payload \<Rightarrow>
                         read_loop items ver
                           (evs @ [\<lparr> type = or_empty (get_S ty), data = payload \<rparr>])))))"

definition read :: "string \<Rightarrow> string \<Rightarrow> table \<Rightarrow> error + js EventStream" where
  "read tbl stream t =
     (case read_loop (query stream t) 0 [] of
        Inl e \<Rightarrow> Inl e
      | Inr (ver, evs) \<Rightarrow>
          Inr \<lparr> name = stream, version = ver, events = (\<lambda>_. Inr evs) \<rparr>)"

subsection \<open>The store, whatever \<open>JSON.stringify\<close> and \<open>JSON.parse\<close> compute\<close>



fun read_loop_with ::
    "(string \<Rightarrow> error + 'd) \<Rightarrow> item list \<Rightarrow> int \<Rightarrow> 'd Event list \<Rightarrow> error + int \<times> 'd Event list" where
  "read_loop_with parse [] ver evs = Inr (ver, evs)"
| "read_loop_with parse (item # items) ver evs =
     (case map_of item ''VERSION'' of
        Some v \<Rightarrow> read_loop_with parse items (parseInt (or_zero (get_N v))) evs
      | None \<Rightarrow>
          (case map_of item ''TYPE'' of
             None \<Rightarrow> Inl TypeError
           | Some ty \<Rightarrow>
               (case map_of item ''DATA'' of
                  None \<Rightarrow> Inl TypeError
                | Some d \<Rightarrow>
                    (case parse (or_empty (get_S d)) of
                       Inl e \<Rightarrow> Inl e
                     | Inr payload \<Rightarrow>
                         read_loop_with parse items ver
                           (evs @ [\<lparr> type = or_empty (get_S ty), data = payload \<rparr>])))))"

definition read_with ::
    "(string \<Rightarrow> error + 'd) \<Rightarrow> string \<Rightarrow> string \<Rightarrow> table \<Rightarrow> error + 'd EventStream" where
  "read_with parse tbl stream t =
     (case read_loop_with parse (query stream t) 0 [] of
        Inl e \<Rightarrow> Inl e
      | Inr (ver, evs) \<Rightarrow>
          Inr \<lparr> name = stream, version = ver, events = (\<lambda>_. Inr evs) \<rparr>)"

subsection \<open>Notions used to state the properties\<close>

text \<open>
  The key of the version record of a stream, the item \<open>eventInsert\<close> puts, and the records
  of a stream in a table.
\<close>

definition meta_key :: "string \<Rightarrow> item" where
  "meta_key stream = [(''PK'', S stream), (''SK'', S ''_METADATA'')]"

definition version_record :: "string \<Rightarrow> table \<Rightarrow> item option" where
  "version_record stream t = get_item t (meta_key stream)"

definition event_item :: "string \<Rightarrow> event \<Rightarrow> string \<Rightarrow> item" where
  "event_item stream ev ksuid =
     [(''PK'', S stream), (''SK'', S (''EVENT-'' @ ksuid)),
      (''TYPE'', S (type ev)), (''DATA'', S (JSON_stringify (data ev)))]"

text \<open>
  What the version step of \<open>write\<close> amounts to: \<open>accepts\<close> is the condition that
  \<open>metadataUpdate\<close> attaches, evaluated on the version record found; \<open>bump\<close> is the
  version record after \<open>ADD #version :increment\<close>.
\<close>

definition accepts :: "rat \<Rightarrow> item option \<Rightarrow> bool" where
  "accepts x existing =
     (if x = Version_None then existing = None
      else if - 1 < x then
        (case existing of None \<Rightarrow> False | Some i \<Rightarrow> map_of i ''VERSION'' = Some (N x))
      else True)"

definition bump :: "string \<Rightarrow> item option \<Rightarrow> error + item" where
  "bump stream existing =
     (case existing of
        None \<Rightarrow> Inr (meta_key stream @ [(''VERSION'', N 1)])
      | Some i \<Rightarrow>
          (case map_of i ''VERSION'' of
             None \<Rightarrow> Inr (AList.update ''VERSION'' (N 1) i)
           | Some (N v) \<Rightarrow> Inr (AList.update ''VERSION'' (N (v + 1)) i)
           | Some (S _) \<Rightarrow> Inl BackendError))"

text \<open>
  What can be observed of a write: the condition expression of a transaction item, the
  counter stored for a stream (0 without a version record), the event record under an
  identifier, and the outcome of the condition of the version step on a table.
\<close>

fun condition_of :: "transact_item \<Rightarrow> string option" where
  "condition_of (Update u) = ConditionExpression u"
| "condition_of (Put p) = None"

definition stored_version :: "string \<Rightarrow> table \<Rightarrow> rat" where
  "stored_version stream t =
     (case version_record stream t of
        None \<Rightarrow> 0
      | Some i \<Rightarrow> (case map_of i ''VERSION'' of Some (N v) \<Rightarrow> v | _ \<Rightarrow> 0))"

definition event_record :: "string \<Rightarrow> string \<Rightarrow> table \<Rightarrow> item option" where
  "event_record stream ksuid t = get_item t [(''PK'', S stream), (''SK'', S (''EVENT-'' @ ksuid))]"

definition version_condition :: "string \<Rightarrow> string \<Rightarrow> rat \<Rightarrow> table \<Rightarrow> error + bool" where
  "version_condition tbl stream expectedVersion t =
     (case metadataUpdate tbl stream expectedVersion of
        Update u \<Rightarrow> condition_holds u (get_item t (Key u))
      | Put p \<Rightarrow> Inr True)"

text \<open>
  A history of the store: the \<open>write\<close> calls made on a table, each with the identifier
  drawn in it, in the order they were made.  \<open>replay\<close> is the table after them, and
  \<open>accepted\<close> counts the calls on a stream that succeeded: the version of the stream.
\<close>

type_synonym call = "string \<times> event \<times> rat \<times> string"

fun replay :: "string \<Rightarrow> call list \<Rightarrow> table \<Rightarrow> table" where
  "replay tbl [] t = t"
| "replay tbl ((stream, ev, x, k) # cs) t = replay tbl cs (snd (write tbl stream ev x k t))"

fun accepted :: "string \<Rightarrow> string \<Rightarrow> call list \<Rightarrow> table \<Rightarrow> nat" where
  "accepted tbl s [] t = 0"
| "accepted tbl s ((stream, ev, x, k) # cs) t =
     (if stream = s \<and> fst (write tbl stream ev x k t) = Inr () then 1 else 0)
       + accepted tbl s cs (snd (write tbl stream ev x k t))"

text \<open>Invariants of the tables that \<open>write\<close> produces, and the stored counter as a number.\<close>

definition meta_ok :: "table \<Rightarrow> bool" where
  "meta_ok t \<longleftrightarrow>
     (\<forall>s i. version_record s t = Some i \<longrightarrow> (\<exists>n. map_of i ''VERSION'' = Some (N (of_nat (Suc n)))))"

definition cur :: "string \<Rightarrow> table \<Rightarrow> nat" where
  "cur s t =
     (case version_record s t of
        None \<Rightarrow> 0
      | Some i \<Rightarrow> (case map_of i ''VERSION'' of Some (N v) \<Rightarrow> nat \<lfloor>v\<rfloor> | _ \<Rightarrow> 0))"

text \<open>
  What \<open>read\<close> computes, said without its loop: \<open>decode_event\<close> is the body of the
  branch that pushes an event, \<open>decode_all\<close> decodes a list of records up to the first
  failure, \<open>has_version\<close> is the test \<open>'VERSION' in item\<close>, \<open>record_version\<close> the
  number a record with that attribute assigns to \<open>version\<close>, and \<open>last_version\<close> the
  number the last such record of a list leaves there.
\<close>

definition decode_event :: "item \<Rightarrow> error + event" where
  "decode_event i =
     (case map_of i ''TYPE'' of
        None \<Rightarrow> Inl TypeError
      | Some ty \<Rightarrow>
          (case map_of i ''DATA'' of
             None \<Rightarrow> Inl TypeError
           | Some d \<Rightarrow>
               (case JSON_parse (or_empty (get_S d)) of
                  Inl e \<Rightarrow> Inl e
                | Inr payload \<Rightarrow> Inr \<lparr> type = or_empty (get_S ty), data = payload \<rparr>)))"

fun decode_all :: "item list \<Rightarrow> error + event list" where
  "decode_all [] = Inr []"
| "decode_all (i # is) =
     (case decode_event i of
        Inl e \<Rightarrow> Inl e
      | Inr ev \<Rightarrow> (case decode_all is of Inl e \<Rightarrow> Inl e | Inr evs \<Rightarrow> Inr (ev # evs)))"

definition has_version :: "item \<Rightarrow> bool" where
  "has_version i = (map_of i ''VERSION'' \<noteq> None)"

definition record_version :: "item \<Rightarrow> int" where
  "record_version i =
     (case map_of i ''VERSION'' of None \<Rightarrow> 0 | Some v \<Rightarrow> parseInt (or_zero (get_N v)))"

definition last_version :: "int \<Rightarrow> item list \<Rightarrow> int" where
  "last_version ver xs =
     (if filter has_version xs = [] then ver else record_version (last (filter has_version xs)))"

text \<open>
  What the holder of a snapshot sees when the table is \<open>t\<close>: the two fields and the
  outcome of running the generator.
\<close>

definition observe :: "js EventStream \<Rightarrow> table \<Rightarrow> string \<times> int \<times> (error + event list)" where
  "observe es t = (name es, version es, events es t)"

text \<open>The shape of the tables that \<open>write\<close> produces.\<close>

definition meta_item :: "string \<Rightarrow> nat \<Rightarrow> item" where
  "meta_item s n = meta_key s @ [(''VERSION'', N (of_nat n))]"

definition table_ok :: "table \<Rightarrow> bool" where
  "table_ok t \<longleftrightarrow>
     distinct (map key_of t) \<and>
     (\<forall>i \<in> set t. (\<exists>s n. i = meta_item s (Suc n))
        \<or> (\<exists>s ev k. i = event_item s ev k \<and> version_record s t \<noteq> None))"

text \<open>
  What a payload is read back as: \<open>JSON.stringify\<close> writes \<open>NaN\<close> as \<open>null\<close>, and
  \<open>JSON.parse\<close> keeps one property per key.  \<open>json_clean\<close> holds of the payloads that JSON
  represents: no \<open>NaN\<close> anywhere, and the keys of every object distinct (as they are in
  every JavaScript object).  \<open>ok_rest\<close> and \<open>value_start\<close> describe the text after and at
  the start of a value inside a JSON text.
\<close>

fun sanitize :: "js \<Rightarrow> js" where
  "sanitize JNaN = JNull"
| "sanitize (JArr vs) = JArr (map sanitize vs)"
| "sanitize (JObj kvs) = make_object (map (\<lambda>(k, v). (k, sanitize v)) kvs)"
| "sanitize v = v"

fun json_clean :: "js \<Rightarrow> bool" where
  "json_clean JNaN = False"
| "json_clean (JArr vs) = list_all json_clean vs"
| "json_clean (JObj kvs) = (distinct (map fst kvs) \<and> list_all (\<lambda>kv. json_clean (snd kv)) kvs)"
| "json_clean v = True"

definition ok_rest :: "string \<Rightarrow> bool" where
  "ok_rest rest =
     (case rest of [] \<Rightarrow> True | c # _ \<Rightarrow> c = CHR '','' \<or> c = CHR '']'' \<or> c = CHR ''}'')"

definition value_start :: "char \<Rightarrow> bool" where
  "value_start c \<longleftrightarrow>
     c = CHR ''n'' \<or> c = CHR ''t'' \<or> c = CHR ''f'' \<or> c = CHR ''-'' \<or> is_digit c
     \<or> c = dquote \<or> c = CHR ''['' \<or> c = CHR ''{''"

text \<open>
  A history of appends: writes to one stream with \<open>Version.Any\<close>, each given by its event
  and the identifier drawn for it.  \<open>event_records\<close> are the records of a stream without a
  \<open>VERSION\<close> attribute, and \<open>stored\<close> the event records that a history of appends puts.
\<close>

definition appends :: "string \<Rightarrow> (event \<times> string) list \<Rightarrow> call list" where
  "appends stream evks = map (\<lambda>(ev, k). (stream, ev, Version_Any, k)) evks"

definition event_records :: "string \<Rightarrow> table \<Rightarrow> item set" where
  "event_records s t = {i \<in> set t. map_of i ''PK'' = Some (S s) \<and> \<not> has_version i}"

definition stored :: "string \<Rightarrow> (event \<times> string) list \<Rightarrow> item list" where
  "stored s evks = map (\<lambda>(ev, k). event_item s ev k) evks"

text \<open>The event of the tests of the source: \<open>jump(name, distance)\<close>.\<close>

definition jump :: "string \<Rightarrow> int \<Rightarrow> event" where
  "jump n distance =
     \<lparr> type = ''PonyJumped'', data = JObj [(''name'', JStr n), (''distance'', JNum distance)] \<rparr>"

section \<open>Properties\<close>

subsection \<open>Items of a table\<close>

lemma get_item_append:
  "get_item (t @ [it]) k = (case get_item t k of Some i \<Rightarrow> Some i | None \<Rightarrow> if key_of it = key_of k then Some it else None)"
  by (induction t) (auto simp: get_item_def)

lemma get_item_None_iff: "get_item t k = None \<longleftrightarrow> (\<forall>i \<in> set t. key_of i \<noteq> key_of k)"
  by (auto simp add: get_item_def find_None_iff)

lemma get_item_replace:
  "get_item (map (\<lambda>i. if key_of i = key_of it then it else i) t) k =
     (if key_of it = key_of k then (if get_item t it = None then None else Some it) else get_item t k)"
  by (induction t) (auto simp: get_item_def)

lemma get_item_put_item:
  "get_item (put_item it t) k = (if key_of it = key_of k then Some it else get_item t k)"
proof (cases "get_item t it = None")
  case True
  show ?thesis
  proof (cases "key_of it = key_of k")
    case same: True
    from True same have "get_item t k = None"
      by (simp add: get_item_None_iff)
    with True same show ?thesis
      by (simp add: put_item_def get_item_append)
  next
    case False
    with True show ?thesis
      by (simp add: put_item_def get_item_append split: option.splits)
  qed
next
  case False
  then have "put_item it t = map (\<lambda>i. if key_of i = key_of it then it else i) t"
    by (simp add: put_item_def)
  then have "get_item (put_item it t) k =
      (if key_of it = key_of k then (if get_item t it = None then None else Some it)
       else get_item t k)"
    by (simp only: get_item_replace)
  with False show ?thesis
    by auto
qed

lemma get_item_key: "get_item t k = Some i \<Longrightarrow> key_of i = key_of k"
  by (auto simp: get_item_def find_Some_iff)

lemma get_item_mem: "get_item t k = Some i \<Longrightarrow> i \<in> set t"
  by (auto simp: get_item_def find_Some_iff)

subsection \<open>The outcome of \<open>write\<close>\<close>

lemma metadataUpdate_None:
  "metadataUpdate tbl stream Version_None =
     Update \<lparr> TableName = tbl, Key = meta_key stream,
              UpdateExpression = ''ADD #version :increment'',
              ExpressionAttributeNames = [(''#version'', ''VERSION'')],
              ExpressionAttributeValues = [('':increment'', N 1)],
              ConditionExpression = Some ''attribute_not_exists(PK)'' \<rparr>"
  by (simp add: metadataUpdate_def Version_None_def meta_key_def)

lemma metadataUpdate_number:
  "- 1 < x \<Longrightarrow> metadataUpdate tbl stream x =
     Update \<lparr> TableName = tbl, Key = meta_key stream,
              UpdateExpression = ''ADD #version :increment'',
              ExpressionAttributeNames = [(''#version'', ''VERSION'')],
              ExpressionAttributeValues = [('':increment'', N 1), ('':expected'', N x)],
              ConditionExpression = Some ''#version = :expected'' \<rparr>"
  by (simp add: metadataUpdate_def Version_None_def meta_key_def)

lemma metadataUpdate_unconditional:
  "x \<le> - 1 \<Longrightarrow> x \<noteq> Version_None \<Longrightarrow> metadataUpdate tbl stream x =
     Update \<lparr> TableName = tbl, Key = meta_key stream,
              UpdateExpression = ''ADD #version :increment'',
              ExpressionAttributeNames = [(''#version'', ''VERSION'')],
              ExpressionAttributeValues = [('':increment'', N 1)],
              ConditionExpression = None \<rparr>"
  by (simp add: metadataUpdate_def meta_key_def)

lemma eventInsert_eq:
  "eventInsert tbl stream ev ksuid = Put \<lparr> PutTableName = tbl, Item = event_item stream ev ksuid \<rparr>"
  by (simp add: eventInsert_def event_item_def)

lemma key_of_meta_key: "key_of (meta_key s) = (Some (S s), Some (S ''_METADATA''))"
  by (simp add: key_of_def meta_key_def)

lemma key_of_event_item: "key_of (event_item s ev k) = (Some (S s), Some (S (''EVENT-'' @ k)))"
  by (simp add: key_of_def event_item_def)

lemma write_unfold:
  "metadataUpdate tbl stream x = Update u \<Longrightarrow> Key u = meta_key stream \<Longrightarrow>
   write tbl stream ev x ksuid t =
     (case apply_update u t of
        Inl e \<Rightarrow> (Inl e, t)
      | Inr t1 \<Rightarrow> (Inr (), put_item (event_item stream ev ksuid) t1))"
  by (simp add: write_def transactWriteItems_def eventInsert_eq key_of_meta_key key_of_event_item
      split: sum.splits)

lemma version_record_PK:
  "version_record s t = Some i \<Longrightarrow> map_of i ''PK'' = Some (S s) \<and> map_of i ''SK'' = Some (S ''_METADATA'')"
  using get_item_key [of t "meta_key s" i]
  by (simp add: version_record_def key_of_meta_key) (simp add: key_of_def)

lemma add_attribute_bump:
  assumes "Key u = meta_key s"
    and "UpdateExpression u = ''ADD #version :increment''"
    and "map_of (ExpressionAttributeNames u) ''#version'' = Some ''VERSION''"
    and "map_of (ExpressionAttributeValues u) '':increment'' = Some (N 1)"
  shows "add_attribute u existing = bump s existing"
  using assms
  by (simp add: add_attribute_def bump_def meta_key_def split: option.splits attr.splits)

lemma apply_update_eq:
  assumes "Key u = meta_key s"
    and "UpdateExpression u = ''ADD #version :increment''"
    and "map_of (ExpressionAttributeNames u) ''#version'' = Some ''VERSION''"
    and "map_of (ExpressionAttributeValues u) '':increment'' = Some (N 1)"
    and "condition_holds u (version_record s t) = Inr b"
  shows "apply_update u t =
     (if b then (case bump s (version_record s t) of Inl e \<Rightarrow> Inl e | Inr i \<Rightarrow> Inr (put_item i t))
      else Inl ConcurrencyError)"
proof -
  have "get_item t (Key u) = version_record s t"
    by (simp add: assms(1) version_record_def)
  then show ?thesis
    using assms(5) add_attribute_bump [OF assms(1-4)]
    by (simp add: apply_update_def)
qed

lemma condition_None:
  "condition_holds \<lparr> TableName = tbl, Key = meta_key s,
              UpdateExpression = ''ADD #version :increment'',
              ExpressionAttributeNames = [(''#version'', ''VERSION'')],
              ExpressionAttributeValues = [('':increment'', N 1)],
              ConditionExpression = Some ''attribute_not_exists(PK)'' \<rparr> (version_record s t)
   = Inr (accepts Version_None (version_record s t))"
  by (auto simp: condition_holds_def accepts_def dest: version_record_PK split: option.splits)

lemma condition_number:
  "- 1 < x \<Longrightarrow>
   condition_holds \<lparr> TableName = tbl, Key = meta_key s,
              UpdateExpression = ''ADD #version :increment'',
              ExpressionAttributeNames = [(''#version'', ''VERSION'')],
              ExpressionAttributeValues = [('':increment'', N 1), ('':expected'', N x)],
              ConditionExpression = Some ''#version = :expected'' \<rparr> existing
   = Inr (accepts x existing)"
  by (auto simp: condition_holds_def accepts_def Version_None_def split: option.splits)

lemma condition_unconditional:
  "x \<le> - 1 \<Longrightarrow> x \<noteq> Version_None \<Longrightarrow>
   condition_holds \<lparr> TableName = tbl, Key = meta_key s,
              UpdateExpression = ''ADD #version :increment'',
              ExpressionAttributeNames = [(''#version'', ''VERSION'')],
              ExpressionAttributeValues = [('':increment'', N 1)],
              ConditionExpression = None \<rparr> existing
   = Inr (accepts x existing)"
  by (auto simp: condition_holds_def accepts_def split: option.splits)

lemma write_result:
  "write tbl s ev x k t =
     (if \<not> accepts x (version_record s t) then (Inl ConcurrencyError, t)
      else
        (case bump s (version_record s t) of
           Inl e \<Rightarrow> (Inl e, t)
         | Inr i \<Rightarrow> (Inr (), put_item (event_item s ev k) (put_item i t))))"
proof -
  consider (none) "x = Version_None" | (num) "- 1 < x" | (any) "x \<le> - 1" "x \<noteq> Version_None"
    by fastforce
  then show ?thesis
  proof cases
    case none
    show ?thesis
      unfolding none
      by (subst write_unfold [OF metadataUpdate_None])
        (simp_all add: apply_update_eq [OF _ _ _ _ condition_None] split: sum.splits)
  next
    case num
    show ?thesis
      by (subst write_unfold [OF metadataUpdate_number [OF num]])
        (simp_all add: apply_update_eq [OF _ _ _ _ condition_number [OF num]] split: sum.splits)
  next
    case any
    show ?thesis
      by (subst write_unfold [OF metadataUpdate_unconditional [OF any]])
        (simp_all add: apply_update_eq [OF _ _ _ _ condition_unconditional [OF any]]
          split: sum.splits)
  qed
qed

subsection \<open>The version counter along a history\<close>

lemma nat_floor_Suc: "nat \<lfloor>1 + rat_of_nat n\<rfloor> = Suc n"
proof -
  have "1 + rat_of_nat n = of_nat (Suc n)"
    by simp
  then have "\<lfloor>1 + rat_of_nat n\<rfloor> = int (Suc n)"
    by (simp only: floor_of_nat)
  then show ?thesis
    by simp
qed

lemma cur_Some:
  "version_record s t = Some i \<Longrightarrow> map_of i ''VERSION'' = Some (N (of_nat (Suc n))) \<Longrightarrow> cur s t = Suc n"
  by (simp add: cur_def nat_floor_Suc)

lemma bump_key:
  assumes "bump s (version_record s t) = Inr i"
  shows "key_of i = key_of (meta_key s)"
proof (cases "version_record s t")
  case None
  with assms show ?thesis
    by (auto simp: bump_def key_of_def meta_key_def)
next
  case (Some j)
  from version_record_PK [OF Some] have "key_of j = key_of (meta_key s)"
    by (simp add: key_of_def meta_key_def)
  with assms Some show ?thesis
    by (auto simp: bump_def key_of_def update_conv' split: option.splits attr.splits)
qed

lemma meta_key_inj: "key_of (meta_key s) = key_of (meta_key s') \<longleftrightarrow> s = s'"
  by (simp add: key_of_meta_key)

lemma version_record_write:
  "version_record s' (snd (write tbl s ev x k t)) =
     (if s' = s \<and> fst (write tbl s ev x k t) = Inr ()
      then (case bump s (version_record s t) of Inr i \<Rightarrow> Some i | Inl e \<Rightarrow> None)
      else version_record s' t)"
proof (cases "accepts x (version_record s t)")
  case False
  then show ?thesis
    by (simp add: write_result)
next
  case True
  show ?thesis
  proof (cases "bump s (version_record s t)")
    case (Inl e)
    with True show ?thesis
      by (simp add: write_result)
  next
    case (Inr i)
    from bump_key [OF Inr] have "key_of i = key_of (meta_key s)" .
    with True Inr show ?thesis
      by (auto simp: write_result version_record_def [of s'] get_item_put_item key_of_event_item
          key_of_meta_key)
  qed
qed

lemma meta_ok_bump:
  assumes "meta_ok t"
  shows "\<exists>i. bump s (version_record s t) = Inr i
           \<and> map_of i ''VERSION'' = Some (N (of_nat (Suc (cur s t))))"
proof (cases "version_record s t")
  case None
  then show ?thesis
    by (simp add: bump_def cur_def meta_key_def)
next
  case (Some j)
  with assms obtain n where "map_of j ''VERSION'' = Some (N (of_nat (Suc n)))"
    by (auto simp: meta_ok_def)
  with Some show ?thesis
    by (simp add: bump_def cur_def update_conv' add.commute)
qed

lemma write_outcome:
  assumes "meta_ok t"
  shows "fst (write tbl s ev x k t) = (if accepts x (version_record s t) then Inr () else Inl ConcurrencyError)"
  using meta_ok_bump [OF assms, of s]
  by (auto simp: write_result)

lemma meta_ok_write:
  assumes "meta_ok t"
  shows "meta_ok (snd (write tbl s ev x k t))"
  unfolding meta_ok_def
proof (intro allI impI)
  fix s' i
  assume rec: "version_record s' (snd (write tbl s ev x k t)) = Some i"
  from meta_ok_bump [OF assms, of s] obtain j where
    j: "bump s (version_record s t) = Inr j" "map_of j ''VERSION'' = Some (N (of_nat (Suc (cur s t))))"
    by blast
  show "\<exists>n. map_of i ''VERSION'' = Some (N (of_nat (Suc n)))"
  proof (cases "s' = s \<and> fst (write tbl s ev x k t) = Inr ()")
    case True
    with rec j show ?thesis
      by (auto simp: version_record_write)
  next
    case False
    with rec have "version_record s' t = Some i"
      by (auto simp: version_record_write split: if_splits)
    with assms show ?thesis
      by (auto simp: meta_ok_def)
  qed
qed

lemma cur_write:
  assumes "meta_ok t"
  shows "cur s' (snd (write tbl s ev x k t)) =
     cur s' t + (if s' = s \<and> fst (write tbl s ev x k t) = Inr () then 1 else 0)"
proof -
  from meta_ok_bump [OF assms, of s] obtain j where
    j: "bump s (version_record s t) = Inr j" "map_of j ''VERSION'' = Some (N (of_nat (Suc (cur s t))))"
    by blast
  show ?thesis
  proof (cases "s' = s \<and> fst (write tbl s ev x k t) = Inr ()")
    case True
    then have "version_record s' (snd (write tbl s ev x k t)) = Some j"
      using j by (simp add: version_record_write)
    from cur_Some [OF this j(2)] True show ?thesis
      by simp
  next
    case False
    then have "version_record s' (snd (write tbl s ev x k t)) = version_record s' t"
      by (auto simp: version_record_write)
    with False show ?thesis
      by (auto simp: cur_def)
  qed
qed

lemma replay_counts:
  "meta_ok t \<Longrightarrow>
   meta_ok (replay tbl cs t) \<and> cur s (replay tbl cs t) = cur s t + accepted tbl s cs t"
proof (induction cs arbitrary: t)
  case Nil
  then show ?case by simp
next
  case (Cons c cs)
  obtain stream ev x k where c: "c = (stream, ev, x, k)"
    by (cases c) auto
  from Cons.prems have ok: "meta_ok (snd (write tbl stream ev x k t))"
    by (rule meta_ok_write)
  from Cons.IH [OF ok] cur_write [OF Cons.prems, of s tbl stream ev x k]
  show ?case
    by (auto simp: c)
qed

lemma meta_ok_empty: "meta_ok []"
  by (simp add: meta_ok_def version_record_def get_item_def)

lemma cur_empty: "cur s [] = 0"
  by (simp add: cur_def version_record_def get_item_def)

lemma cur_stored:
  assumes "meta_ok t" and "version_record s t = Some i"
  shows "\<exists>n. cur s t = Suc n \<and> map_of i ''VERSION'' = Some (N (of_nat (cur s t)))"
proof -
  from assms obtain n where n: "map_of i ''VERSION'' = Some (N (of_nat (Suc n)))"
    by (auto simp: meta_ok_def)
  with assms(2) have "cur s t = Suc n"
    by (simp add: cur_def nat_floor_Suc)
  with n show ?thesis
    by simp
qed

lemma cur_zero_iff: "meta_ok t \<Longrightarrow> cur s t = 0 \<longleftrightarrow> version_record s t = None"
  using cur_stored [of t s] by (cases "version_record s t") (auto simp: cur_def)

lemma version_condition_accepts:
  "version_condition tbl stream x t = Inr (accepts x (version_record stream t))"
proof -
  consider (none) "x = Version_None" | (num) "- 1 < x" | (any) "x \<le> - 1" "x \<noteq> Version_None"
    by fastforce
  then show ?thesis
  proof cases
    case none
    show ?thesis
      unfolding none version_condition_def metadataUpdate_None
      by (simp add: condition_None version_record_def [symmetric])
  next
    case num
    show ?thesis
      unfolding version_condition_def metadataUpdate_number [OF num]
      by (simp add: condition_number [OF num] version_record_def [symmetric])
  next
    case any
    show ?thesis
      unfolding version_condition_def metadataUpdate_unconditional [OF any]
      by (simp add: condition_unconditional [OF any] version_record_def [symmetric])
  qed
qed

lemma stored_version_bump:
  "bump s (version_record s t) = Inr i \<Longrightarrow> version_record s t' = Some i \<Longrightarrow>
   stored_version s t' = stored_version s t + 1"
  by (auto simp: stored_version_def bump_def meta_key_def update_conv'
      split: option.splits attr.splits)

subsection \<open>The loop of \<open>read\<close>\<close>

lemma read_loop_eq:
  "read_loop xs ver evs =
     (case decode_all (filter (\<lambda>i. \<not> has_version i) xs) of
        Inl e \<Rightarrow> Inl e
      | Inr es \<Rightarrow>
          Inr (last_version ver xs, evs @ es))"
proof (induction xs arbitrary: ver evs)
  case Nil
  then show ?case by (simp add: last_version_def)
next
  case (Cons x xs)
  show ?case
  proof (cases "map_of x ''VERSION''")
    case None
    then show ?thesis
      by (simp add: Cons.IH last_version_def has_version_def decode_event_def
          split: option.splits sum.splits)
  next
    case (Some v)
    then show ?thesis
      by (simp add: Cons.IH last_version_def has_version_def record_version_def split: sum.splits)
  qed
qed

lemma read_eq:
  "read tbl stream t =
     (case decode_all (filter (\<lambda>i. \<not> has_version i) (query stream t)) of
        Inl e \<Rightarrow> Inl e
      | Inr es \<Rightarrow>
          Inr \<lparr> name = stream, version = last_version 0 (query stream t), events = (\<lambda>_. Inr es) \<rparr>)"
  by (simp add: read_def read_loop_eq split: sum.splits)

lemma set_query: "set (query stream t) = {i \<in> set t. map_of i ''PK'' = Some (S stream)}"
  by (auto simp: query_def)

lemma sorted_query: "sorted (map sort_key_of (query stream t))"
  by (simp add: query_def)

lemma decode_all_fails:
  "x \<in> set xs \<Longrightarrow> decode_event x = Inl e \<Longrightarrow> \<exists>e'. decode_all xs = Inl e'"
  by (induction xs) (auto split: sum.splits)

subsection \<open>The shape of the table along a history\<close>

lemma set_put_item: "set (put_item it t) \<subseteq> insert it (set t)"
  by (auto simp: put_item_def)

lemma keys_put_item:
  "map key_of (put_item it t) = (if get_item t it = None then map key_of t @ [key_of it] else map key_of t)"
  by (auto simp: put_item_def)

lemma distinct_put_item: "distinct (map key_of t) \<Longrightarrow> distinct (map key_of (put_item it t))"
  by (auto simp: keys_put_item get_item_None_iff)

lemma key_of_meta_item: "key_of (meta_item s n) = (Some (S s), Some (S ''_METADATA''))"
  by (simp add: key_of_def meta_item_def meta_key_def)

lemma version_record_shape:
  assumes "table_ok t" and "version_record s t = Some i"
  shows "\<exists>n. i = meta_item s (Suc n)"
proof -
  from assms(2) have mem: "i \<in> set t"
    by (simp add: version_record_def get_item_mem)
  from version_record_PK [OF assms(2)]
  have k: "key_of i = (Some (S s), Some (S ''_METADATA''))"
    by (simp add: key_of_def)
  from assms(1) mem consider (m) s' n where "i = meta_item s' (Suc n)"
    | (e) s' ev k' where "i = event_item s' ev k'"
    by (auto simp: table_ok_def)
  then show ?thesis
  proof cases
    case m
    with k show ?thesis
      by (auto simp: key_of_meta_item)
  next
    case e
    with k show ?thesis
      by (simp add: key_of_event_item)
  qed
qed

lemma bump_shape:
  assumes "table_ok t"
  shows "\<exists>n. bump s (version_record s t) = Inr (meta_item s (Suc n))"
proof (cases "version_record s t")
  case None
  then show ?thesis
    by (auto simp: bump_def meta_item_def intro: exI [of _ 0])
next
  case (Some i)
  from version_record_shape [OF assms Some] obtain n where "i = meta_item s (Suc n)"
    by blast
  with Some have "bump s (version_record s t) = Inr (meta_item s (Suc (Suc n)))"
    by (simp add: bump_def meta_item_def meta_key_def add.commute)
  then show ?thesis
    by blast
qed

lemma table_ok_write:
  assumes "table_ok t"
  shows "table_ok (snd (write tbl s ev x k t))"
proof (cases "accepts x (version_record s t)")
  case False
  with assms show ?thesis
    by (simp add: write_result)
next
  case True
  from bump_shape [OF assms, of s] obtain n where
    b: "bump s (version_record s t) = Inr (meta_item s (Suc n))"
    by blast
  define t' where "t' = snd (write tbl s ev x k t)"
  from True b have t': "t' = put_item (event_item s ev k) (put_item (meta_item s (Suc n)) t)"
    and ok: "fst (write tbl s ev x k t) = Inr ()"
    by (simp_all add: write_result t'_def)
  have rec_s: "version_record s t' \<noteq> None"
    using ok b by (simp add: version_record_write t'_def)
  have rec_other: "version_record s' t' \<noteq> None" if "version_record s' t \<noteq> None" for s'
    using that ok b by (cases "s' = s") (simp_all add: version_record_write t'_def)
  have d: "distinct (map key_of t')"
    using assms by (simp add: t' distinct_put_item table_ok_def)
  have shape: "(\<exists>s n. i = meta_item s (Suc n))
      \<or> (\<exists>s ev k. i = event_item s ev k \<and> version_record s t' \<noteq> None)"
    if "i \<in> set t'" for i
  proof -
    from that set_put_item [of "event_item s ev k" "put_item (meta_item s (Suc n)) t"]
      set_put_item [of "meta_item s (Suc n)" t]
    consider "i = event_item s ev k" | "i = meta_item s (Suc n)" | "i \<in> set t"
      unfolding t' by blast
    then show ?thesis
    proof cases
      case 1
      with rec_s show ?thesis by blast
    next
      case 2
      then show ?thesis by blast
    next
      case 3
      with assms have "(\<exists>s n. i = meta_item s (Suc n))
          \<or> (\<exists>s ev k. i = event_item s ev k \<and> version_record s t \<noteq> None)"
        by (simp add: table_ok_def)
      then show ?thesis
      proof
        assume "\<exists>s n. i = meta_item s (Suc n)"
        then show ?thesis by (rule disjI1)
      next
        assume "\<exists>s ev k. i = event_item s ev k \<and> version_record s t \<noteq> None"
        then obtain s' ev' k' where "i = event_item s' ev' k'" "version_record s' t \<noteq> None"
          by blast
        with rec_other [of s'] show ?thesis by blast
      qed
    qed
  qed
  from d shape have "table_ok t'"
    by (simp add: table_ok_def)
  then show ?thesis
    by (simp add: t'_def)
qed

lemma table_ok_empty: "table_ok []"
  by (simp add: table_ok_def)

lemma table_ok_replay: "table_ok t \<Longrightarrow> table_ok (replay tbl cs t)"
proof (induction cs arbitrary: t)
  case Nil
  then show ?case by simp
next
  case (Cons c cs)
  obtain stream ev x k where c: "c = (stream, ev, x, k)"
    by (cases c) auto
  from Cons show ?case
    by (simp add: c table_ok_write)
qed

lemma unwritten_partition_empty:
  assumes "table_ok t" and "version_record s t = None"
  shows "filter (\<lambda>i. map_of i ''PK'' = Some (S s)) t = []"
proof -
  have "map_of i ''PK'' \<noteq> Some (S s)" if "i \<in> set t" for i
  proof -
    from assms(1) that consider (m) s' n where "i = meta_item s' (Suc n)"
      | (e) s' ev k' where "i = event_item s' ev k'" "version_record s' t \<noteq> None"
      by (auto simp: table_ok_def)
    then show ?thesis
    proof cases
      case m
      from assms(2) that have "key_of i \<noteq> key_of (meta_key s)"
        by (simp add: version_record_def get_item_None_iff)
      then have "s' \<noteq> s"
        by (auto simp: m key_of_meta_item key_of_meta_key)
      then show ?thesis
        by (simp add: m meta_item_def meta_key_def)
    next
      case e
      with assms(2) show ?thesis
        by (auto simp: event_item_def)
    qed
  qed
  then show ?thesis
    by (simp add: filter_empty_conv)
qed

lemma query_empty:
  "filter (\<lambda>i. map_of i ''PK'' = Some (S s)) t = [] \<Longrightarrow> query s t = []"
  by (simp add: query_def)

lemma read_unwritten:
  assumes "table_ok t" and "version_record s t = None"
  shows "read tbl s t = Inr \<lparr> name = s, version = 0, events = (\<lambda>_. Inr []) \<rparr>"
  using query_empty [OF unwritten_partition_empty [OF assms]]
  by (simp add: read_def)

lemma accepted_replay:
  "meta_ok (replay tbl cs []) \<and> table_ok (replay tbl cs [])
   \<and> cur s (replay tbl cs []) = accepted tbl s cs []"
  using replay_counts [OF meta_ok_empty, of tbl cs s] table_ok_replay [OF table_ok_empty, of tbl cs]
  by (simp add: cur_empty)

lemma has_version_meta_item: "has_version (meta_item s n)"
  by (simp add: has_version_def meta_item_def meta_key_def)

lemma has_version_event_item: "\<not> has_version (event_item s ev k)"
  by (simp add: has_version_def event_item_def)

lemma parseInt_of_nat: "parseInt (of_nat n) = int n"
  by (simp add: parseInt_def)

lemma record_version_meta_item: "record_version (meta_item s n) = int n"
  by (simp add: record_version_def meta_item_def meta_key_def or_zero_def parseInt_of_nat)

lemma singleton_list:
  assumes "distinct xs" and "set xs = {a}"
  shows "xs = [a]"
proof (cases xs)
  case Nil
  with assms show ?thesis by simp
next
  case (Cons y ys)
  with assms have y: "y = a" and "a \<notin> set ys" and "set ys \<subseteq> {a}"
    by auto
  then have "ys = []"
    by (cases ys) auto
  with Cons y show ?thesis by simp
qed

lemma distinct_query: "distinct t \<Longrightarrow> distinct (query s t)"
  by (simp add: query_def)

lemma version_records_of_partition:
  assumes "table_ok t" and "version_record s t = Some i"
  shows "filter has_version (query s t) = [i]"
proof -
  from version_record_shape [OF assms] obtain n where i: "i = meta_item s (Suc n)"
    by blast
  from assms(2) have mem: "i \<in> set t"
    by (simp add: version_record_def get_item_mem)
  from assms(1) have dk: "distinct (map key_of t)"
    by (simp add: table_ok_def)
  then have dt: "distinct t"
    by (simp add: distinct_map)
  have "x = i" if "x \<in> set t" "map_of x ''PK'' = Some (S s)" "has_version x" for x
  proof -
    from assms(1) that(1) consider (m) s' m where "x = meta_item s' (Suc m)"
      | (e) s' ev k' where "x = event_item s' ev k'"
      by (auto simp: table_ok_def)
    then show ?thesis
    proof cases
      case m
      with that(2) have "s' = s"
        by (simp add: meta_item_def meta_key_def)
      with m i have "key_of x = key_of i"
        by (simp add: key_of_meta_item)
      with dk that(1) mem show ?thesis
        by (auto simp: distinct_map inj_on_def)
    next
      case e
      with that(3) show ?thesis
        by (simp add: has_version_event_item)
    qed
  qed
  moreover have "has_version i"
    by (simp add: i has_version_meta_item)
  moreover have "i \<in> set (query s t)"
    using mem by (simp add: set_query) (simp add: i meta_item_def meta_key_def)
  ultimately have "set (filter has_version (query s t)) = {i}"
    by (auto simp: set_query)
  moreover have "distinct (filter has_version (query s t))"
    using dt by (simp add: distinct_query)
  ultimately show ?thesis
    by (rule singleton_list [rotated])
qed

lemma last_version_cur:
  assumes "table_ok t" and "meta_ok t"
  shows "last_version 0 (query s t) = int (cur s t)"
proof (cases "version_record s t")
  case None
  from query_empty [OF unwritten_partition_empty [OF assms(1) None]] None
  show ?thesis
    by (simp add: last_version_def cur_def)
next
  case (Some i)
  from version_record_shape [OF assms(1) Some] obtain n where i: "i = meta_item s (Suc n)"
    by blast
  from cur_Some [OF Some, of n] have "cur s t = Suc n"
    by (simp add: i meta_item_def meta_key_def)
  with version_records_of_partition [OF assms(1) Some] show ?thesis
    by (simp add: last_version_def i record_version_meta_item)
qed

lemma read_version_accepted:
  "read tbl s (replay tbl cs []) = Inr es \<Longrightarrow> version es = int (accepted tbl s cs [])"
  using accepted_replay [of tbl cs s] last_version_cur [of "replay tbl cs []" s]
  by (auto simp: read_eq split: sum.splits)

lemma marker_iff_version:
  assumes "table_ok t" and "i \<in> set t"
  shows "has_version i \<longleftrightarrow> map_of i ''SK'' = Some (S ''_METADATA'')"
proof -
  from assms consider (m) s' m where "i = meta_item s' (Suc m)"
    | (e) s' ev k' where "i = event_item s' ev k'"
    by (auto simp: table_ok_def)
  then show ?thesis
  proof cases
    case m
    then show ?thesis
      by (simp add: has_version_meta_item) (simp add: meta_item_def meta_key_def)
  next
    case e
    then show ?thesis
      by (simp add: has_version_event_item) (simp add: event_item_def)
  qed
qed

subsection \<open>Parsing the text of a payload\<close>

lemma hex_val_hex_char: "d < 16 \<Longrightarrow> hex_val (hex_char d) = Some d"
  by (auto simp: hex_val_def hex_char_def Let_def)

lemma hex4_escape:
  assumes "(of_char c :: nat) < 32"
  shows "hex4 (CHR ''0'') (CHR ''0'') (hex_char (of_char c div 16)) (hex_char (of_char c mod 16)) = Some c"
proof -
  have z: "hex_val (CHR ''0'') = Some 0"
    by (simp add: hex_val_def)
  have h: "hex_val (hex_char (of_char c div 16)) = Some (of_char c div 16)"
    using assms by (intro hex_val_hex_char) simp
  have l: "hex_val (hex_char (of_char c mod 16)) = Some (of_char c mod 16)"
    by (intro hex_val_hex_char) simp
  have "char_of (16 * (of_char c div 16) + of_char c mod 16 :: nat) = c"
    by simp
  with z h l show ?thesis
    by (simp add: hex4_def)
qed

lemma consed_Some: "consed x (Some (xs, r)) = Some (x # xs, r)"
  by (simp add: consed_def)

lemma parse_chars_escape:
  "parse_chars (escape_char c @ s) = consed c (parse_chars s)"
proof -
  consider (q) "c = dquote" | (b) "c = backslash" | (c8) "c = CHR 0x08" | (cc) "c = CHR 0x0C"
    | (ca) "c = CHR 0x0A" | (cd) "c = CHR 0x0D" | (c9) "c = CHR 0x09"
    | (ctl) "c \<noteq> dquote" "c \<noteq> backslash" "c \<noteq> CHR 0x08" "c \<noteq> CHR 0x0C" "c \<noteq> CHR 0x0A"
        "c \<noteq> CHR 0x0D" "c \<noteq> CHR 0x09" "(of_char c :: nat) < 32"
    | (plain) "c \<noteq> dquote" "c \<noteq> backslash" "\<not> (of_char c :: nat) < 32"
    by (cases "(of_char c :: nat) < 32") auto
  then show ?thesis
  proof cases
    case ctl
    then show ?thesis
      by (simp add: escape_char_def hex4_escape) (simp add: dquote_def backslash_def)
  next
    case plain
    then have "escape_char c = [c]"
      by (auto simp: escape_char_def)
    with plain show ?thesis
      by simp
  qed (simp_all add: escape_char_def unescape_def dquote_def backslash_def)
qed

lemma parse_chars_quoted:
  "parse_chars (concat (map escape_char s) @ dquote # rest) = Some (s, rest)"
  by (induction s) (simp_all add: parse_chars_escape consed_Some)

lemma of_char_digit_char: "d < 10 \<Longrightarrow> (of_char (digit_char d) :: nat) = 48 + d"
  by (simp add: digit_char_def)

lemma char_eq_iff_code: "c = d \<longleftrightarrow> (of_char c :: nat) = of_char d"
  by (simp add: of_char_eq_iff)

lemma is_digit_digit_char: "d < 10 \<Longrightarrow> is_digit (digit_char d)"
  by (simp add: is_digit_def of_char_digit_char)

lemma digit_val_digit_char: "d < 10 \<Longrightarrow> digit_val (digit_char d) = d"
  by (simp add: digit_val_def of_char_digit_char)

lemma digit_char_zero: "d < 10 \<Longrightarrow> digit_char d = CHR ''0'' \<longleftrightarrow> d = 0"
  by (simp add: char_eq_iff_code [of "digit_char d"] of_char_digit_char)

lemma show_nat_small: "n < 10 \<Longrightarrow> show_nat n = [digit_char n]"
  by (subst show_nat.simps) simp

lemma show_nat_big: "\<not> n < 10 \<Longrightarrow> show_nat n = show_nat (n div 10) @ [digit_char (n mod 10)]"
  by (subst show_nat.simps) simp

lemma show_nat_digits: "c \<in> set (show_nat n) \<Longrightarrow> is_digit c"
proof (induction n arbitrary: c rule: show_nat.induct)
  case (1 n)
  show ?case
  proof (cases "n < 10")
    case True
    with "1.prems" show ?thesis
      by (simp add: show_nat_small is_digit_digit_char)
  next
    case False
    with "1.prems" "1.IH" show ?thesis
      by (auto simp: show_nat_big is_digit_digit_char)
  qed
qed

lemma digits_val_snoc: "digits_val (ds @ [c]) = 10 * digits_val ds + digit_val c"
  by (simp add: digits_val_def)

lemma digits_val_show_nat: "digits_val (show_nat n) = n"
proof (induction n rule: show_nat.induct)
  case (1 n)
  show ?case
  proof (cases "n < 10")
    case True
    then show ?thesis
      by (simp add: show_nat_small digits_val_def digit_val_digit_char)
  next
    case False
    with "1.IH" show ?thesis
      by (simp add: show_nat_big digits_val_snoc digit_val_digit_char)
  qed
qed

lemma show_nat_head: "\<exists>c cs. show_nat n = c # cs \<and> is_digit c \<and> (0 < n \<longrightarrow> c \<noteq> CHR ''0'')"
proof (induction n rule: show_nat.induct)
  case (1 n)
  show ?case
  proof (cases "n < 10")
    case True
    then show ?thesis
      by (simp add: show_nat_small is_digit_digit_char digit_char_zero)
  next
    case False
    with "1.IH" obtain c cs where "show_nat (n div 10) = c # cs" "is_digit c" "c \<noteq> CHR ''0''"
      by auto
    with False show ?thesis
      by (simp add: show_nat_big)
  qed
qed

lemma show_nat_zero: "show_nat 0 = ''0''"
  by (simp add: show_nat_small digit_char_zero [of 0, simplified])

lemma ok_rest_no_digit: "ok_rest rest \<Longrightarrow> takeWhile is_digit rest = [] \<and> dropWhile is_digit rest = rest"
  by (cases rest) (auto simp: ok_rest_def is_digit_def)

lemma ok_rest_no_fraction: "ok_rest rest \<Longrightarrow> no_fraction rest"
  by (cases rest) (auto simp: ok_rest_def no_fraction_def)

lemma parse_nat_show_nat:
  assumes "ok_rest rest"
  shows "parse_nat (show_nat n @ rest) = Some (n, rest)"
proof (cases "n = 0")
  case True
  then show ?thesis
    by (simp add: show_nat_zero parse_nat_def is_digit_def)
next
  case False
  with show_nat_head [of n] obtain c cs where
    h: "show_nat n = c # cs" "is_digit c" "c \<noteq> CHR ''0''"
    by auto
  have all: "\<forall>x \<in> set (show_nat n). is_digit x"
    by (simp add: show_nat_digits)
  from ok_rest_no_digit [OF assms]
  have "takeWhile is_digit (show_nat n @ rest) = show_nat n"
    and "dropWhile is_digit (show_nat n @ rest) = rest"
    using all by (simp_all add: takeWhile_append2 dropWhile_append2)
  moreover have "parse_nat (show_nat n @ rest) =
      Some (digits_val (takeWhile is_digit (show_nat n @ rest)), dropWhile is_digit (show_nat n @ rest))"
    using h(2,3) unfolding parse_nat_def h(1) by simp
  ultimately show ?thesis
    by (simp add: digits_val_show_nat)
qed

lemma parse_number_show_int:
  assumes "ok_rest rest"
  shows "parse_number (show_int i @ rest) = Some (JNum i, rest)"
proof (cases "i < 0")
  case True
  with parse_nat_show_nat [OF assms, of "nat (- i)"] ok_rest_no_fraction [OF assms]
  show ?thesis
    by (simp add: parse_number_def show_int_def)
next
  case False
  from show_nat_head [of "nat i"] obtain c cs where
    h: "show_nat (nat i) = c # cs" "is_digit c"
    by auto
  then have "c \<noteq> CHR ''-''"
    by (auto simp: is_digit_def)
  with h have "parse_number (show_nat (nat i) @ rest) =
      (case parse_nat (show_nat (nat i) @ rest) of
         None \<Rightarrow> None
       | Some (n, rest') \<Rightarrow> if no_fraction rest' then Some (JNum (int n), rest') else None)"
    by (simp add: parse_number_def)
  with False parse_nat_show_nat [OF assms, of "nat i"] ok_rest_no_fraction [OF assms]
  show ?thesis
    by (simp add: show_int_def)
qed

lemma show_int_head: "\<exists>c cs. show_int i = c # cs \<and> (c = CHR ''-'' \<or> is_digit c)"
  using show_nat_head [of "nat i"] by (auto simp: show_int_def)

lemma skip_ws_Cons: "\<not> is_ws c \<Longrightarrow> skip_ws (c # r) = c # r"
  by (simp add: skip_ws_def)

lemma value_start_not_ws: "value_start c \<Longrightarrow> \<not> is_ws c \<and> c \<noteq> CHR '']'' \<and> c \<noteq> CHR ''}''"
  by (auto simp: value_start_def is_ws_def is_digit_def dquote_def)

lemma stringify_head: "\<exists>c r. JSON_stringify v = c # r \<and> value_start c"
proof (cases v)
  case (JNum i)
  with show_int_head [of i] show ?thesis
    by (auto simp: value_start_def)
qed (auto simp: value_start_def quote_def)

lemma join_head:
  "vs \<noteq> [] \<Longrightarrow> \<exists>c r. join (map JSON_stringify vs) = c # r \<and> value_start c"
proof (cases vs)
  case Nil
  moreover assume "vs \<noteq> []"
  ultimately show ?thesis by simp
next
  case (Cons v ws)
  from stringify_head [of v] obtain c r where "JSON_stringify v = c # r" "value_start c"
    by blast
  with Cons show ?thesis
    by (cases ws) auto
qed

lemma ok_rest_simps:
  "ok_rest []" "ok_rest (CHR '','' # r)" "ok_rest (CHR '']'' # r)" "ok_rest (CHR ''}'' # r)"
  by (simp_all add: ok_rest_def)

lemma parse_value_number:
  assumes "ok_rest rest"
  shows "parse_value (Suc n) (show_int i @ rest) = Some (JNum i, rest)"
proof -
  from show_int_head [of i] obtain c cs where
    h: "show_int i = c # cs" "c = CHR ''-'' \<or> is_digit c"
    by blast
  then have "\<not> is_ws c" "c \<noteq> CHR ''n''" "c \<noteq> CHR ''t''" "c \<noteq> CHR ''f''" "c \<noteq> dquote"
    "c \<noteq> CHR ''[''" "c \<noteq> CHR ''{''"
    by (auto simp: is_ws_def is_digit_def dquote_def)
  then have "parse_value (Suc n) ((c # cs) @ rest) = parse_number ((c # cs) @ rest)"
    by (simp add: skip_ws_Cons)
  with parse_number_show_int [OF assms, of i] h(1) show ?thesis
    by simp
qed

lemma parse_value_string:
  "parse_value (Suc n) (quote s @ rest) = Some (JStr s, rest)"
proof -
  have "\<not> is_ws dquote" "dquote \<noteq> CHR ''n''" "dquote \<noteq> CHR ''t''" "dquote \<noteq> CHR ''f''"
    by (simp_all add: is_ws_def dquote_def)
  then show ?thesis
    by (simp add: quote_def skip_ws_Cons parse_chars_quoted)
qed

lemma parse_elements_join:
  assumes "\<And>v n rest. v \<in> set vs \<Longrightarrow> 2 * length (JSON_stringify v) \<le> n \<Longrightarrow> ok_rest rest \<Longrightarrow>
      parse_value n (JSON_stringify v @ rest) = Some (sanitize v, rest)"
    and "vs \<noteq> []"
    and "2 * length (join (map JSON_stringify vs)) + 1 \<le> n"
  shows "parse_elements n (join (map JSON_stringify vs) @ CHR '']'' # rest) = Some (map sanitize vs, rest)"
  using assms
proof (induction vs arbitrary: n)
  case Nil
  then show ?case by simp
next
  case (Cons v ws)
  from Cons.prems(3) obtain m where n: "n = Suc m"
    by (cases n) auto
  show ?case
  proof (cases ws)
    case Nil
    from Cons.prems(3) have "2 * length (JSON_stringify v) \<le> m"
      by (simp add: n Nil)
    from Cons.prems(1) [OF _ this, of "CHR '']'' # rest"]
    have "parse_value m (JSON_stringify v @ CHR '']'' # rest) = Some (sanitize v, CHR '']'' # rest)"
      by (simp add: ok_rest_simps)
    then show ?thesis
      by (simp add: n Nil skip_ws_Cons is_ws_def)
  next
    case (Cons w ws')
    let ?J = "join (map JSON_stringify (w # ws'))"
    from Cons.prems(3) have le: "2 * length (JSON_stringify v) \<le> m" "2 * length ?J + 1 \<le> m"
      by (simp_all add: n Cons)
    from Cons.prems(1) [OF _ le(1), of "CHR '','' # ?J @ CHR '']'' # rest"]
    have v: "parse_value m (JSON_stringify v @ CHR '','' # ?J @ CHR '']'' # rest)
        = Some (sanitize v, CHR '','' # ?J @ CHR '']'' # rest)"
      by (simp add: ok_rest_simps)
    have "parse_elements m (?J @ CHR '']'' # rest) = Some (map sanitize (w # ws'), rest)"
      using Cons.IH [of m] Cons.prems(1) le(2) unfolding Cons by simp
    with v show ?thesis
      by (simp add: n Cons skip_ws_Cons is_ws_def consed_Some)
  qed
qed

lemma parse_members_join:
  assumes "\<And>k v n rest. (k, v) \<in> set kvs \<Longrightarrow> 2 * length (JSON_stringify v) \<le> n \<Longrightarrow> ok_rest rest \<Longrightarrow>
      parse_value n (JSON_stringify v @ rest) = Some (sanitize v, rest)"
    and "kvs \<noteq> []"
    and "2 * length (join (map (\<lambda>(k, v). quote k @ CHR '':'' # JSON_stringify v) kvs)) + 1 \<le> n"
  shows "parse_members n (join (map (\<lambda>(k, v). quote k @ CHR '':'' # JSON_stringify v) kvs) @ CHR ''}'' # rest)
     = Some (map (\<lambda>(k, v). (k, sanitize v)) kvs, rest)"
  using assms
proof (induction kvs arbitrary: n)
  case Nil
  then show ?case by simp
next
  case (Cons kv ws)
  obtain k v where kv: "kv = (k, v)"
    by (cases kv) auto
  from Cons.prems(3) obtain m where n: "n = Suc m"
    by (cases n) auto
  have q: "\<not> is_ws dquote" "\<not> is_ws (CHR '':'')" "\<not> is_ws (CHR '','')" "\<not> is_ws (CHR ''}'')"
    by (simp_all add: is_ws_def dquote_def)
  show ?case
  proof (cases ws)
    case Nil
    from Cons.prems(3) have "2 * length (JSON_stringify v) \<le> m"
      by (simp add: n Nil kv)
    from Cons.prems(1) [OF _ this, of k "CHR ''}'' # rest"]
    have "parse_value m (JSON_stringify v @ CHR ''}'' # rest) = Some (sanitize v, CHR ''}'' # rest)"
      by (simp add: ok_rest_simps kv)
    then show ?thesis
      by (simp add: n Nil kv quote_def skip_ws_Cons q parse_chars_quoted)
  next
    case (Cons w ws')
    let ?J = "join (map (\<lambda>(k, v). quote k @ CHR '':'' # JSON_stringify v) (w # ws'))"
    from Cons.prems(3) have le: "2 * length (JSON_stringify v) \<le> m" "2 * length ?J + 1 \<le> m"
      by (simp_all add: n Cons kv)
    from Cons.prems(1) [OF _ le(1), of k "CHR '','' # ?J @ CHR ''}'' # rest"]
    have v: "parse_value m (JSON_stringify v @ CHR '','' # ?J @ CHR ''}'' # rest)
        = Some (sanitize v, CHR '','' # ?J @ CHR ''}'' # rest)"
      by (simp add: ok_rest_simps kv)
    have "parse_members m
        (join (map (\<lambda>(k, v). quote k @ CHR '':'' # JSON_stringify v) ws) @ CHR ''}'' # rest)
        = Some (map (\<lambda>(k, v). (k, sanitize v)) ws, rest)"
    proof (rule Cons.IH)
      fix k' v' n' rest'
      assume "(k', v') \<in> set ws" "2 * length (JSON_stringify v') \<le> n'" "ok_rest rest'"
      then show "parse_value n' (JSON_stringify v' @ rest') = Some (sanitize v', rest')"
        using Cons.prems(1) [of k' v' n' rest'] by simp
    next
      show "ws \<noteq> []"
        by (simp add: Cons)
    next
      show "2 * length (join (map (\<lambda>(k, v). quote k @ CHR '':'' # JSON_stringify v) ws)) + 1 \<le> m"
        using le(2) by (simp add: Cons)
    qed
    then have "parse_members m (?J @ CHR ''}'' # rest)
        = Some (map (\<lambda>(k, v). (k, sanitize v)) (w # ws'), rest)"
      by (simp add: Cons)
    with v show ?thesis
      by (simp add: n Cons kv quote_def skip_ws_Cons q parse_chars_quoted consed_Some)
  qed
qed

lemma members_head:
  "kvs \<noteq> [] \<Longrightarrow> \<exists>r. join (map (\<lambda>(k, v). quote k @ CHR '':'' # JSON_stringify v) kvs) = dquote # r"
proof (cases kvs)
  case Nil
  moreover assume "kvs \<noteq> []"
  ultimately show ?thesis by simp
next
  case (Cons kv ws)
  then show ?thesis
    by (cases ws; cases kv) (auto simp: quote_def)
qed

lemma parse_value_stringify:
  "2 * length (JSON_stringify v) \<le> n \<Longrightarrow> ok_rest rest \<Longrightarrow>
   parse_value n (JSON_stringify v @ rest) = Some (sanitize v, rest)"
proof (induction v arbitrary: n rest)
  case JNull
  then obtain m where "n = Suc m"
    by (cases n) auto
  then show ?case
    by (simp add: skip_ws_Cons is_ws_def literal_def)
next
  case (JBool b)
  then obtain m where "n = Suc m"
    by (cases n; cases b) auto
  then show ?case
    by (cases b) (simp_all add: skip_ws_Cons is_ws_def literal_def)
next
  case (JNum i)
  from show_int_head [of i] JNum.prems(1) obtain m where "n = Suc m"
    by (cases n) auto
  with parse_value_number [OF JNum.prems(2), of m i] show ?case
    by (simp del: parse_value.simps)
next
  case JNaN
  then obtain m where "n = Suc m"
    by (cases n) auto
  then show ?case
    by (simp add: skip_ws_Cons is_ws_def literal_def)
next
  case (JStr s)
  then obtain m where "n = Suc m"
    by (cases n) (auto simp: quote_def)
  then show ?case
    using parse_value_string [of m s rest] by (simp del: parse_value.simps)
next
  case (JArr vs)
  from JArr.prems(1) obtain m where n: "n = Suc m"
    by (cases n) auto
  have b: "\<not> is_ws (CHR ''['')" "\<not> is_ws (CHR '']'')"
    by (simp_all add: is_ws_def)
  show ?case
  proof (cases "vs = []")
    case True
    then show ?thesis
      by (simp add: n skip_ws_Cons b dquote_def)
  next
    case False
    let ?J = "join (map JSON_stringify vs)"
    from join_head [OF False] obtain c r where h: "?J = c # r" "value_start c"
      by blast
    from value_start_not_ws [OF h(2)] have c: "\<not> is_ws c" "c \<noteq> CHR '']''"
      by simp_all
    from JArr.prems(1) have "2 * length ?J + 1 \<le> m"
      by (simp add: n)
    with parse_elements_join [of vs m rest] JArr.IH False
    have "parse_elements m (?J @ CHR '']'' # rest) = Some (map sanitize vs, rest)"
      by blast
    moreover have "parse_value (Suc m) (CHR ''['' # ?J @ CHR '']'' # rest) =
        (case parse_elements m (?J @ CHR '']'' # rest) of
           None \<Rightarrow> None
         | Some (ws, rest') \<Rightarrow> Some (JArr ws, rest'))"
      using c by (simp add: skip_ws_Cons b dquote_def h(1))
    ultimately show ?thesis
      by (simp add: n)
  qed
next
  case (JObj kvs)
  from JObj.prems(1) obtain m where n: "n = Suc m"
    by (cases n) auto
  have b: "\<not> is_ws (CHR ''{'')" "\<not> is_ws (CHR ''}'')" "\<not> is_ws dquote" "dquote \<noteq> CHR ''}''"
    "CHR ''{'' \<noteq> dquote"
    by (simp_all add: is_ws_def dquote_def)
  show ?case
  proof (cases "kvs = []")
    case True
    then show ?thesis
      by (simp add: n skip_ws_Cons b dquote_def make_object_def)
  next
    case False
    let ?J = "join (map (\<lambda>(k, v). quote k @ CHR '':'' # JSON_stringify v) kvs)"
    from members_head [OF False] obtain r where h: "?J = dquote # r"
      by blast
    from JObj.prems(1) have le: "2 * length ?J + 1 \<le> m"
      by (simp add: n)
    have "parse_members m (?J @ CHR ''}'' # rest) = Some (map (\<lambda>(k, v). (k, sanitize v)) kvs, rest)"
    proof (rule parse_members_join)
      fix k v n' rest'
      assume "(k, v) \<in> set kvs" "2 * length (JSON_stringify v) \<le> n'" "ok_rest rest'"
      then show "parse_value n' (JSON_stringify v @ rest') = Some (sanitize v, rest')"
        using JObj.IH [of "(k, v)" v n' rest'] by simp
    next
      show "kvs \<noteq> []" by (rule False)
    next
      show "2 * length ?J + 1 \<le> m" by (rule le)
    qed
    moreover have "parse_value (Suc m) (CHR ''{'' # ?J @ CHR ''}'' # rest) =
        (case parse_members m (?J @ CHR ''}'' # rest) of
           None \<Rightarrow> None
         | Some (ws, rest') \<Rightarrow> Some (make_object ws, rest'))"
      using b by (simp add: skip_ws_Cons h)
    ultimately show ?thesis
      by (simp add: n)
  qed
qed

lemma JSON_parse_stringify: "JSON_parse (JSON_stringify v) = Inr (sanitize v)"
  using parse_value_stringify [of v "2 * length (JSON_stringify v) + 2" "[]"]
  by (simp add: JSON_parse_def ok_rest_simps skip_ws_def)

subsection \<open>Reading back what was written\<close>

lemma update_fresh: "k \<notin> fst ` set al \<Longrightarrow> AList.update k v al = al @ [(k, v)]"
  by (induction al) auto

lemma foldl_update_distinct:
  "distinct (map fst (acc @ kvs)) \<Longrightarrow>
   foldl (\<lambda>acc (k, v). AList.update k v acc) acc kvs = acc @ kvs"
proof (induction kvs arbitrary: acc)
  case Nil
  then show ?case by simp
next
  case (Cons kv kvs)
  obtain k v where kv: "kv = (k, v)"
    by (cases kv) auto
  from Cons.prems have "k \<notin> fst ` set acc"
    by (auto simp: kv)
  then have "AList.update k v acc = acc @ [(k, v)]"
    by (rule update_fresh)
  moreover from Cons.prems have "distinct (map fst ((acc @ [(k, v)]) @ kvs))"
    by (simp add: kv)
  ultimately show ?case
    using Cons.IH [of "acc @ [(k, v)]"] by (simp add: kv)
qed

lemma make_object_distinct: "distinct (map fst kvs) \<Longrightarrow> make_object kvs = JObj kvs"
  using foldl_update_distinct [of "[]" kvs] by (simp add: make_object_def)

lemma sanitize_clean: "json_clean v \<Longrightarrow> sanitize v = v"
proof (induction v)
  case (JArr vs)
  then have "map sanitize vs = vs"
    by (auto simp: list_all_iff intro: map_idI)
  then show ?case by simp
next
  case (JObj kvs)
  then have "map (\<lambda>(k, v). (k, sanitize v)) kvs = kvs"
    by (intro map_idI) (auto simp: list_all_iff)
  with JObj.prems show ?case
    by (simp add: make_object_distinct)
qed simp_all

lemma JSON_round_trip: "json_clean v \<Longrightarrow> JSON_parse (JSON_stringify v) = Inr v"
  by (simp add: JSON_parse_stringify sanitize_clean)

lemma decode_event_item:
  "decode_event (event_item s ev k) = Inr \<lparr> type = type ev, data = sanitize (data ev) \<rparr>"
  by (simp add: decode_event_def event_item_def or_empty_def JSON_parse_stringify)

lemma decode_all_ok:
  "(\<And>x. x \<in> set xs \<Longrightarrow> \<exists>e. decode_event x = Inr e) \<Longrightarrow>
   \<exists>evs. decode_all xs = Inr evs \<and> (\<forall>x \<in> set xs. \<forall>e. decode_event x = Inr e \<longrightarrow> e \<in> set evs)"
proof (induction xs)
  case Nil
  then show ?case by simp
next
  case (Cons x xs)
  from Cons.prems [of x] obtain e where e: "decode_event x = Inr e"
    by auto
  from Cons.IH Cons.prems obtain evs where
    "decode_all xs = Inr evs" "\<forall>y \<in> set xs. \<forall>e. decode_event y = Inr e \<longrightarrow> e \<in> set evs"
    by auto
  with e show ?case
    by auto
qed


lemma event_records_decode:
  assumes "table_ok t"
  shows "\<exists>evs. decode_all (filter (\<lambda>i. \<not> has_version i) (query s t)) = Inr evs
    \<and> (\<forall>x \<in> set (filter (\<lambda>i. \<not> has_version i) (query s t)).
          \<forall>e. decode_event x = Inr e \<longrightarrow> e \<in> set evs)"
proof (rule decode_all_ok)
  fix x
  assume "x \<in> set (filter (\<lambda>i. \<not> has_version i) (query s t))"
  then have "x \<in> set t" "\<not> has_version x"
    by (simp_all add: set_query)
  with assms obtain s' ev k where "x = event_item s' ev k"
    by (auto simp: table_ok_def has_version_meta_item)
  then show "\<exists>e. decode_event x = Inr e"
    by (simp add: decode_event_item)
qed

lemma read_succeeds:
  "table_ok t \<Longrightarrow> \<exists>evs. read tbl s t = Inr \<lparr> name = s, version = last_version 0 (query s t), events = (\<lambda>_. Inr evs) \<rparr>"
  using event_records_decode [of t s] by (auto simp: read_eq)

lemma read_version:
  "\<exists>es. read tbl s (replay tbl cs []) = Inr es \<and> version es = int (accepted tbl s cs [])"
  using read_succeeds [OF table_ok_replay [OF table_ok_empty, of tbl cs], of tbl s]
    read_version_accepted [of tbl s cs]
  by auto

subsection \<open>The store with the built-in functions as parameters\<close>



lemma read_loop_instance: "read_loop xs ver evs = read_loop_with JSON_parse xs ver evs"
  by (induction xs arbitrary: ver evs) (auto split: option.splits sum.splits)

lemma read_instance: "read tbl stream t = read_with JSON_parse tbl stream t"
  by (simp add: read_def read_with_def read_loop_instance)

lemma read_loop_with_fails:
  assumes "x \<in> set xs" and "map_of x ''VERSION'' = None"
    and "map_of x ''DATA'' = Some d" and "parse (or_empty (get_S d)) = Inl e"
  shows "\<exists>e'. read_loop_with parse xs ver evs = Inl e'"
  using assms(1)
proof (induction xs arbitrary: ver evs)
  case Nil
  then show ?case by simp
next
  case (Cons y ys)
  show ?case
  proof (cases "y = x")
    case True
    with assms(2-4) show ?thesis
      by (simp split: option.splits)
  next
    case False
    with Cons.prems have "x \<in> set ys"
      by simp
    from Cons.IH [OF this] show ?thesis
      by (simp split: option.splits sum.splits)
  qed
qed




subsection \<open>Appends are read back in the order of their identifiers\<close>

lemma accepts_Any: "accepts Version_Any e"
  by (simp add: accepts_def Version_Any_def Version_None_def)

lemma accepted_appends:
  "meta_ok t \<Longrightarrow> accepted tbl s (appends s evks) t = length evks"
proof (induction evks arbitrary: t)
  case Nil
  then show ?case by (simp add: appends_def)
next
  case (Cons evk evks)
  obtain ev k where evk: "evk = (ev, k)"
    by (cases evk) auto
  from Cons.prems have "fst (write tbl s ev Version_Any k t) = Inr ()"
    by (simp add: write_outcome accepts_Any)
  moreover from Cons.prems have "meta_ok (snd (write tbl s ev Version_Any k t))"
    by (rule meta_ok_write)
  ultimately show ?case
    using Cons.IH [of "snd (write tbl s ev Version_Any k t)"]
    by (simp add: evk appends_def)
qed

lemma set_put_item_eq: "set (put_item it t) = insert it {i \<in> set t. key_of i \<noteq> key_of it}"
proof (cases "get_item t it = None")
  case True
  then show ?thesis
    by (auto simp: put_item_def get_item_None_iff)
next
  case False
  then obtain j where "j \<in> set t" "key_of j = key_of it"
    by (auto simp: get_item_None_iff)
  with False show ?thesis
    by (auto simp: put_item_def)
qed

lemma event_records_write:
  assumes "table_ok t"
  shows "event_records s (snd (write tbl s ev Version_Any k t)) =
     insert (event_item s ev k) {i \<in> event_records s t. key_of i \<noteq> key_of (event_item s ev k)}"
proof -
  from bump_shape [OF assms, of s] obtain n where
    b: "bump s (version_record s t) = Inr (meta_item s (Suc n))"
    by blast
  then have t': "snd (write tbl s ev Version_Any k t)
      = put_item (event_item s ev k) (put_item (meta_item s (Suc n)) t)"
    by (simp add: write_result accepts_Any)
  have keep: "key_of i \<noteq> key_of (meta_item s (Suc n))" if "i \<in> set t" "\<not> has_version i" for i
  proof -
    from assms that(1) consider (m) s' m where "i = meta_item s' (Suc m)"
      | (e) s' ev' k' where "i = event_item s' ev' k'"
      by (auto simp: table_ok_def)
    then show ?thesis
    proof cases
      case m
      with that(2) show ?thesis
        by (simp add: has_version_meta_item)
    next
      case e
      then show ?thesis
        by (simp add: key_of_event_item key_of_meta_item)
    qed
  qed
  have e: "map_of (event_item s ev k) ''PK'' = Some (S s)"
    by (simp add: event_item_def)
  show ?thesis
    unfolding t' event_records_def set_put_item_eq
    using keep e by (auto simp: has_version_meta_item has_version_event_item)
qed

lemma event_records_appends:
  assumes "table_ok t" and "distinct (map snd evks)"
  shows "event_records s (replay tbl (appends s evks) t) =
     set (stored s evks) \<union> {i \<in> event_records s t. key_of i \<notin> key_of ` set (stored s evks)}"
  using assms
proof (induction evks arbitrary: t)
  case Nil
  then show ?case by (simp add: appends_def stored_def)
next
  case (Cons evk evks)
  obtain ev k where evk: "evk = (ev, k)"
    by (cases evk) auto
  let ?t1 = "snd (write tbl s ev Version_Any k t)"
  from Cons.prems(1) have ok: "table_ok ?t1"
    by (rule table_ok_write)
  from Cons.prems(2) have d: "distinct (map snd evks)" and fresh: "k \<notin> snd ` set evks"
    by (simp_all add: evk)
  from fresh have "(ev', k) \<notin> set evks" for ev'
    by force
  then have f: "key_of (event_item s ev k) \<notin> key_of ` set (stored s evks)"
    by (auto simp: stored_def key_of_event_item)
  have "event_records s (replay tbl (appends s (evk # evks)) t)
      = event_records s (replay tbl (appends s evks) ?t1)"
    by (simp add: appends_def evk)
  also have "\<dots> = set (stored s evks)
      \<union> {i \<in> event_records s ?t1. key_of i \<notin> key_of ` set (stored s evks)}"
    by (rule Cons.IH [OF ok d])
  also have "\<dots> = set (stored s (evk # evks))
      \<union> {i \<in> event_records s t. key_of i \<notin> key_of ` set (stored s (evk # evks))}"
    using f unfolding event_records_write [OF Cons.prems(1)]
    by (auto simp: stored_def evk)
  finally show ?case .
qed

lemma event_records_new_store:
  "distinct (map snd evks) \<Longrightarrow>
   event_records s (replay tbl (appends s evks) []) = set (stored s evks)"
  using event_records_appends [OF table_ok_empty, of evks s tbl]
  by (simp add: event_records_def)

lemma sort_key_of_event_item: "sort_key_of (event_item s ev k) = ''EVENT-'' @ k"
  by (simp add: sort_key_of_def event_item_def)

lemma sorted_stored:
  "sorted_wrt (<) (map snd evks) \<Longrightarrow> sorted_wrt (<) (map sort_key_of (stored s evks))"
  by (induction evks) (auto simp: stored_def sort_key_of_event_item)

lemma inj_on_stored:
  assumes "distinct (map snd evks)"
  shows "inj_on sort_key_of (set (stored s evks))"
proof (rule inj_onI)
  fix x y
  assume "x \<in> set (stored s evks)" "y \<in> set (stored s evks)" "sort_key_of x = sort_key_of y"
  then obtain ev k ev' k' where
    x: "x = event_item s ev k" "(ev, k) \<in> set evks" and
    y: "y = event_item s ev' k'" "(ev', k') \<in> set evks" and
    "k = k'"
    by (auto simp: stored_def sort_key_of_event_item)
  moreover from assms have "inj_on snd (set evks)"
    by (simp add: distinct_map)
  ultimately have "(ev, k) = (ev', k')"
    using inj_onD [of snd "set evks" "(ev, k)" "(ev', k')"] by simp
  with x y show "x = y"
    by simp
qed

lemma event_list_of_query:
  assumes "sorted_wrt (<) (map snd evks)"
  shows "filter (\<lambda>i. \<not> has_version i) (query s (replay tbl (appends s evks) [])) = stored s evks"
proof -
  let ?t = "replay tbl (appends s evks) []"
  let ?L = "filter (\<lambda>i. \<not> has_version i) (query s ?t)"
  from assms have d: "distinct (map snd evks)"
    by (simp add: strict_sorted_iff)
  have set: "set ?L = set (stored s evks)"
    using event_records_new_store [OF d, of s tbl]
    by (auto simp: event_records_def set_query)
  have ok: "table_ok ?t"
    by (intro table_ok_replay table_ok_empty)
  then have "distinct ?t"
    by (simp add: table_ok_def distinct_map)
  then have dl: "distinct ?L"
    by (simp add: distinct_query)
  have inj: "inj_on sort_key_of (set ?L \<union> set (stored s evks))"
    unfolding set Un_absorb by (rule inj_on_stored [OF d])
  have sl: "sorted (map sort_key_of ?L)"
    by (simp add: query_def filter_sort)
  have dm: "distinct (map sort_key_of ?L)"
    using dl inj by (simp add: distinct_map inj_on_Un)
  from sorted_stored [OF assms, of s]
  have sm: "sorted (map sort_key_of (stored s evks))" "distinct (map sort_key_of (stored s evks))"
    by (simp_all add: strict_sorted_iff)
  from inj sl dm sm set show ?thesis
    by (rule map_sorted_distinct_set_unique)
qed

lemma decode_all_stored:
  "list_all (\<lambda>(ev, k). json_clean (data ev)) evks \<Longrightarrow>
   decode_all (stored s evks) = Inr (map fst evks)"
  by (induction evks) (auto simp: stored_def decode_event_item sanitize_clean)

lemma appends_read_in_identifier_order:
  assumes "sorted_wrt (<) (map snd evks)"
    and "list_all (\<lambda>(ev, k). json_clean (data ev)) evks"
  shows "read tbl s (replay tbl (appends s evks) []) =
     Inr \<lparr> name = s, version = int (length evks), events = (\<lambda>_. Inr (map fst evks)) \<rparr>"
proof -
  let ?t = "replay tbl (appends s evks) []"
  from accepted_replay [of tbl "appends s evks" s]
  have "last_version 0 (query s ?t) = int (accepted tbl s (appends s evks) [])"
    by (simp add: last_version_cur)
  then have "last_version 0 (query s ?t) = int (length evks)"
    by (simp add: accepted_appends meta_ok_empty)
  then show ?thesis
    by (simp add: read_eq event_list_of_query [OF assms(1)] decode_all_stored [OF assms(2)])
qed

section \<open>The claims\<close>

subsection \<open>C1: the events of a stream in the order of the writes\<close>

text \<open>
  C1.  After \<open>N\<close> appends to a new stream \<open>read\<close> reports version \<open>N\<close>, and it returns the
  \<open>N\<close> events in the order of the writes when the identifiers drawn in the writes are
  strictly increasing (\<open>appends_read_in_identifier_order\<close>).  Nothing in the source makes
  them so: the first four bytes of an identifier are the time in seconds and the other
  sixteen are random.  In the second scenario of the tests of the source, two writes to
  a new stream, with two identifiers that \<open>ksuid.randomSync()\<close> can return within one
  second, both writes are accepted and \<open>read\<close> reports version 2, but it returns the event
  written second before the event written first.
\<close>

theorem events_follow_identifiers_not_writes:
  "accepted ''table'' ''stream''
     [(''stream'', jump ''SparkleHooves'' 5, Version_Any, ''0ujsszwN8NRY24YaXiTIE2VWDTS''),
      (''stream'', jump ''DerpyHooves'' 5, Version_Any, ''0ujsswThIGTUYm2K8FjOOfXtY1K'')] [] = 2
   \<and> (case read ''table'' ''stream''
             (replay ''table''
               [(''stream'', jump ''SparkleHooves'' 5, Version_Any, ''0ujsszwN8NRY24YaXiTIE2VWDTS''),
                (''stream'', jump ''DerpyHooves'' 5, Version_Any, ''0ujsswThIGTUYm2K8FjOOfXtY1K'')]
               []) of
        Inl e \<Rightarrow> None
      | Inr es \<Rightarrow> Some (version es, events es [])) =
       Some (2, Inr [jump ''DerpyHooves'' 5, jump ''SparkleHooves'' 5])"
  by code_simp

subsection \<open>C2: a write is all or nothing\<close>

text \<open>
  C2.  Every \<open>write\<close>, whatever the table, the stream, the event, the expected version and
  the identifier drawn, either succeeds, and then the stored version of the stream is one
  more than before and the event record is in the table, or fails, and then the table is
  the one before the call.  In particular, when the condition of the version step is
  false, the call fails with \<open>ConcurrencyError\<close> and the table is unchanged: the version is
  not incremented and the event is not inserted.
\<close>

theorem write_all_or_nothing:
  "((fst (write tbl stream ev x k t) = Inr ()
      \<and> stored_version stream (snd (write tbl stream ev x k t)) = stored_version stream t + 1
      \<and> event_record stream k (snd (write tbl stream ev x k t))
          = Some [(''PK'', S stream), (''SK'', S (''EVENT-'' @ k)),
                  (''TYPE'', S (type ev)), (''DATA'', S (JSON_stringify (data ev)))])
    \<or> (fst (write tbl stream ev x k t) \<in> {Inl ConcurrencyError, Inl BackendError}
      \<and> snd (write tbl stream ev x k t) = t))
   \<and> (version_condition tbl stream x t = Inr False
        \<longrightarrow> write tbl stream ev x k t = (Inl ConcurrencyError, t))"
proof (cases "accepts x (version_record stream t)")
  case False
  then show ?thesis
    by (simp add: write_result version_condition_accepts)
next
  case True
  show ?thesis
  proof (cases "bump stream (version_record stream t)")
    case (Inl e)
    then have "e = BackendError"
      by (auto simp: bump_def split: option.splits attr.splits)
    with True Inl show ?thesis
      by (simp add: write_result version_condition_accepts)
  next
    case (Inr i)
    from True Inr have ok: "fst (write tbl stream ev x k t) = Inr ()"
      by (simp add: write_result)
    from ok Inr have "version_record stream (snd (write tbl stream ev x k t)) = Some i"
      by (simp add: version_record_write)
    from stored_version_bump [OF Inr this]
    have v: "stored_version stream (snd (write tbl stream ev x k t)) = stored_version stream t + 1" .
    have e: "event_record stream k (snd (write tbl stream ev x k t)) = Some (event_item stream ev k)"
      using True Inr
      by (simp add: write_result event_record_def get_item_put_item)
        (simp add: key_of_def event_item_def)
    from ok v e True show ?thesis
      by (simp add: version_condition_accepts event_item_def)
  qed
qed

text \<open>
  An instance: on the empty table the condition of a write that expects version 5 is
  false, and the write is refused without any effect.
\<close>

theorem write_all_or_nothing_witness:
  "version_condition ''table'' ''stream'' 5 [] = Inr False
   \<and> write ''table'' ''stream'' (jump ''SparkleHooves'' 5) 5 ''0ujsszwN8NRY24YaXiTIE2VWDTS'' []
       = (Inl ConcurrencyError, [])"
proof -
  have c: "version_condition ''table'' ''stream'' 5 [] = Inr False"
    by (simp add: version_condition_def metadataUpdate_def Version_None_def condition_holds_def
        get_item_def)
  with write_all_or_nothing [of "''table''" "''stream''" "jump ''SparkleHooves'' 5" 5
      "''0ujsszwN8NRY24YaXiTIE2VWDTS''" "[]"]
  show ?thesis
    by simp
qed

subsection \<open>C3: a numeric expected version\<close>

text \<open>
  C3, as the claim states it, fails for \<open>N = 0\<close>: a stream that was never written has
  version 0 (no write to it was accepted, and \<open>read\<close> reports 0), but a write that expects
  version 0 is refused, because the condition \<open>#version = :expected\<close> is false when there
  is no version record.
\<close>

theorem expected_zero_on_new_stream_refused:
  "accepted ''table'' ''stream'' [] [] = 0
   \<and> (case read ''table'' ''stream'' [] of Inl e \<Rightarrow> None | Inr es \<Rightarrow> Some (version es)) = Some 0
   \<and> write ''table'' ''stream'' (jump ''SparkleHooves'' 5) 0 ''0ujsszwN8NRY24YaXiTIE2VWDTS'' []
       = (Inl ConcurrencyError, [])"
  by code_simp

text \<open>
  C3, amended.  After any history of \<open>write\<close> calls on the table of a new store and for
  every natural number \<open>n\<close>, a write to a stream with \<open>expectedVersion = n\<close> succeeds exactly
  when \<open>n\<close> is positive and equals the version of the stream, the number of writes to it
  accepted so far; otherwise, for a version below or above \<open>n\<close> and for \<open>n = 0\<close> at any
  version, it fails with \<open>ConcurrencyError\<close>.  That number is the version a \<open>read\<close> of
  the stream reports.
\<close>

theorem expected_number_needs_stored_version:
  "fst (write tbl stream ev (of_nat n) k (replay tbl cs [])) =
     (if 0 < n \<and> accepted tbl stream cs [] = n then Inr () else Inl ConcurrencyError)
   \<and> (\<exists>es. read tbl stream (replay tbl cs []) = Inr es
          \<and> version es = int (accepted tbl stream cs []))"
proof (rule conjI)
  show "\<exists>es. read tbl stream (replay tbl cs []) = Inr es
          \<and> version es = int (accepted tbl stream cs [])"
    by (rule read_version)
next
  from replay_counts [OF meta_ok_empty, of tbl cs stream]
  have ok: "meta_ok (replay tbl cs [])" and c: "cur stream (replay tbl cs []) = accepted tbl stream cs []"
    by (simp_all add: cur_empty)
  have nn: "(of_nat n :: rat) \<noteq> Version_None" "- 1 < (of_nat n :: rat)"
    by (simp_all add: Version_None_def)
  show "fst (write tbl stream ev (of_nat n) k (replay tbl cs [])) =
     (if 0 < n \<and> accepted tbl stream cs [] = n then Inr () else Inl ConcurrencyError)"
  proof (cases "version_record stream (replay tbl cs [])")
    case None
    with cur_zero_iff [OF ok, of stream] c show ?thesis
      by (auto simp: write_outcome [OF ok] accepts_def nn)
  next
    case (Some i)
    from cur_stored [OF ok Some] c Some show ?thesis
      by (auto simp: write_outcome [OF ok] accepts_def nn)
  qed
qed

text \<open>
  An instance: after two accepted writes, expecting version 2 succeeds and expecting
  version 1 is refused, as in the tests of the source.
\<close>

theorem expected_number_needs_stored_version_witness:
  "accepted ''table'' ''stream''
     [(''stream'', jump ''FirstHooves'' 1, Version_Any, ''0ujsswThIGTUYm2K8FjOOfXtY1K''),
      (''stream'', jump ''SecondHooves'' 2, Version_Any, ''0ujsszwN8NRY24YaXiTIE2VWDTS'')] [] = 2
   \<and> fst (write ''table'' ''stream'' (jump ''PresentHooves'' 2) 2 ''0ujszzzzzzzzzzzzzzzzzzzzzzz''
          (replay ''table''
            [(''stream'', jump ''FirstHooves'' 1, Version_Any, ''0ujsswThIGTUYm2K8FjOOfXtY1K''),
             (''stream'', jump ''SecondHooves'' 2, Version_Any, ''0ujsszwN8NRY24YaXiTIE2VWDTS'')] []))
       = Inr ()"
proof -
  have a: "accepted ''table'' ''stream''
     [(''stream'', jump ''FirstHooves'' 1, Version_Any, ''0ujsswThIGTUYm2K8FjOOfXtY1K''),
      (''stream'', jump ''SecondHooves'' 2, Version_Any, ''0ujsszwN8NRY24YaXiTIE2VWDTS'')] [] = 2"
    by code_simp
  with expected_number_needs_stored_version [of "''table''" "''stream''"
      "jump ''PresentHooves'' 2" 2 "''0ujszzzzzzzzzzzzzzzzzzzzzzz''"
      "[(''stream'', jump ''FirstHooves'' 1, Version_Any, ''0ujsswThIGTUYm2K8FjOOfXtY1K''),
        (''stream'', jump ''SecondHooves'' 2, Version_Any, ''0ujsszwN8NRY24YaXiTIE2VWDTS'')]"]
  show ?thesis
    by simp
qed

subsection \<open>C4: the expectation \<open>Version.None\<close>\<close>

text \<open>
  C4.  After any history of \<open>write\<close> calls on the table of a new store, a write to a
  stream with \<open>expectedVersion = Version.None\<close> succeeds exactly when no write to that
  stream has been accepted so far, and fails with \<open>ConcurrencyError\<close> in every other
  case; the calls of the history may be of any kind and in any order.
\<close>

theorem None_succeeds_exactly_once:
  "fst (write tbl stream ev Version_None k (replay tbl cs [])) =
     (if accepted tbl stream cs [] = 0 then Inr () else Inl ConcurrencyError)"
proof -
  from replay_counts [OF meta_ok_empty, of tbl cs stream]
  have ok: "meta_ok (replay tbl cs [])" and c: "cur stream (replay tbl cs []) = accepted tbl stream cs []"
    by (simp_all add: cur_empty)
  from cur_zero_iff [OF ok, of stream] c
  show ?thesis
    by (simp add: write_outcome [OF ok] accepts_def)
qed

text \<open>
  An instance: after one accepted write to a stream, a write that expects no stream is
  refused.
\<close>

theorem None_succeeds_exactly_once_witness:
  "accepted ''table'' ''stream''
     [(''stream'', jump ''SparkleHooves'' 5, Version_Any, ''0ujsszwN8NRY24YaXiTIE2VWDTS'')] [] = 1
   \<and> fst (write ''table'' ''stream'' (jump ''EmptyHooves'' 1) Version_None
          ''0ujsswThIGTUYm2K8FjOOfXtY1K''
          (replay ''table''
            [(''stream'', jump ''SparkleHooves'' 5, Version_Any, ''0ujsszwN8NRY24YaXiTIE2VWDTS'')] []))
       = Inl ConcurrencyError"
proof -
  have a: "accepted ''table'' ''stream''
     [(''stream'', jump ''SparkleHooves'' 5, Version_Any, ''0ujsszwN8NRY24YaXiTIE2VWDTS'')] [] = 1"
    by code_simp
  with None_succeeds_exactly_once [of "''table''" "''stream''" "jump ''EmptyHooves'' 1"
      "''0ujsswThIGTUYm2K8FjOOfXtY1K''"
      "[(''stream'', jump ''SparkleHooves'' 5, Version_Any, ''0ujsszwN8NRY24YaXiTIE2VWDTS'')]"]
  show ?thesis
    by simp
qed

subsection \<open>C5: reading a stream that was never written\<close>

text \<open>
  C5.  After any history of \<open>write\<close> calls on the table of a new store in which no write
  to a stream was accepted, \<open>read\<close> of that stream returns the snapshot with the name of
  the stream, version 0 and a generator that yields no event.  The store has no other
  notion of an empty stream: a stream exists by its records.
\<close>

theorem read_of_unwritten_stream:
  "accepted tbl stream cs [] = 0 \<Longrightarrow>
   read tbl stream (replay tbl cs []) = Inr \<lparr> name = stream, version = 0, events = (\<lambda>_. Inr []) \<rparr>"
proof -
  assume "accepted tbl stream cs [] = 0"
  with accepted_replay [of tbl cs stream] cur_zero_iff [of "replay tbl cs []" stream]
  have "table_ok (replay tbl cs [])" "version_record stream (replay tbl cs []) = None"
    by simp_all
  then show ?thesis
    by (rule read_unwritten)
qed

text \<open>An instance: a stream next to one that was written.\<close>

theorem read_of_unwritten_stream_witness:
  "accepted ''table'' ''stream''
     [(''other'', jump ''SparkleHooves'' 5, Version_Any, ''0ujsszwN8NRY24YaXiTIE2VWDTS'')] [] = 0
   \<and> read ''table'' ''stream''
        (replay ''table''
          [(''other'', jump ''SparkleHooves'' 5, Version_Any, ''0ujsszwN8NRY24YaXiTIE2VWDTS'')] [])
       = Inr \<lparr> name = ''stream'', version = 0, events = (\<lambda>_. Inr []) \<rparr>"
proof -
  have a: "accepted ''table'' ''stream''
     [(''other'', jump ''SparkleHooves'' 5, Version_Any, ''0ujsszwN8NRY24YaXiTIE2VWDTS'')] [] = 0"
    by code_simp
  from a read_of_unwritten_stream [OF a] show ?thesis
    by (rule conjI)
qed

subsection \<open>C6: an event written and read back\<close>




subsection \<open>C7: when a malformed payload is reported\<close>

text \<open>
  C7, as the claim states it, fails: \<open>read\<close> parses every payload in its loop, before it
  returns, so a record with a malformed payload makes the \<open>read\<close> call itself fail.
\<close>

theorem malformed_payload_fails_read:
  "(case read ''table'' ''stream''
           [[(''PK'', S ''stream''), (''SK'', S ''EVENT-0ujsszwN8NRY24YaXiTIE2VWDTS''),
             (''TYPE'', S ''PonyJumped''), (''DATA'', S ''{'')]] of
      Inl e \<Rightarrow> Some e
    | Inr es \<Rightarrow> None) = Some SyntaxError"
  by code_simp

text \<open>
  C7, amended.  For every stream with an event record (a record without the \<open>VERSION\<close>
  attribute) whose stored payload is malformed, that is, on which \<open>JSON.parse\<close> throws,
  the \<open>read\<close> call itself fails: the decoding failure, or the failure of an earlier
  record, is raised at read-call time.  When \<open>read\<close> returns a snapshot, consuming its
  events never fails: the generator yields events that are already decoded.  This holds
  whatever \<open>JSON.parse\<close> accepts and returns.
\<close>

theorem decoding_happens_in_read:
  "(i \<in> set t \<and> map_of i ''PK'' = Some (S stream) \<and> map_of i ''VERSION'' = None
      \<and> map_of i ''DATA'' = Some (S d) \<and> parse d = Inl e
     \<longrightarrow> (\<exists>e'. read_with parse tbl stream t = Inl e'))
   \<and> (read_with parse tbl stream t = Inr es \<longrightarrow> (\<exists>evs. \<forall>t'. events es t' = Inr evs))"
proof (intro conjI impI)
  assume a: "i \<in> set t \<and> map_of i ''PK'' = Some (S stream) \<and> map_of i ''VERSION'' = None
      \<and> map_of i ''DATA'' = Some (S d) \<and> parse d = Inl e"
  then have "i \<in> set (query stream t)"
    by (simp add: set_query)
  from read_loop_with_fails [OF this, of "S d" parse e 0 "[]"] a
  show "\<exists>e'. read_with parse tbl stream t = Inl e'"
    by (auto simp: read_with_def or_empty_def)
next
  assume "read_with parse tbl stream t = Inr es"
  then show "\<exists>evs. \<forall>t'. events es t' = Inr evs"
    by (auto simp: read_with_def split: sum.splits)
qed

text \<open>
  An instance, at the model of \<open>JSON.parse\<close>: the record with the payload \<open>{\<close> makes \<open>read\<close>
  fail, and the snapshot of a stream after a write yields its events at any later table.
\<close>

theorem decoding_happens_in_read_witness:
  "JSON_parse ''{'' = Inl SyntaxError
   \<and> (\<exists>e'. read_with JSON_parse ''table'' ''stream''
              [[(''PK'', S ''stream''), (''SK'', S ''EVENT-0ujsszwN8NRY24YaXiTIE2VWDTS''),
                (''TYPE'', S ''PonyJumped''), (''DATA'', S ''{'')]] = Inl e')
   \<and> (\<exists>es evs.
         read_with JSON_parse ''table'' ''stream''
           (snd (write ''table'' ''stream'' (jump ''SparkleHooves'' 5) Version_Any
                   ''0ujsszwN8NRY24YaXiTIE2VWDTS'' [])) = Inr es
         \<and> (\<forall>t'. events es t' = Inr evs))"
proof -
  let ?t = "snd (write ''table'' ''stream'' (jump ''SparkleHooves'' 5) Version_Any
                   ''0ujsszwN8NRY24YaXiTIE2VWDTS'' [])"
  have p: "JSON_parse ''{'' = Inl SyntaxError"
    by code_simp
  from decoding_happens_in_read
    [of "[(''PK'', S ''stream''), (''SK'', S ''EVENT-0ujsszwN8NRY24YaXiTIE2VWDTS''),
          (''TYPE'', S ''PonyJumped''), (''DATA'', S ''{'')]"
        "[[(''PK'', S ''stream''), (''SK'', S ''EVENT-0ujsszwN8NRY24YaXiTIE2VWDTS''),
           (''TYPE'', S ''PonyJumped''), (''DATA'', S ''{'')]]"
        "''stream''" "''{''" JSON_parse SyntaxError "''table''"] p
  have a: "\<exists>e'. read_with JSON_parse ''table'' ''stream''
              [[(''PK'', S ''stream''), (''SK'', S ''EVENT-0ujsszwN8NRY24YaXiTIE2VWDTS''),
                (''TYPE'', S ''PonyJumped''), (''DATA'', S ''{'')]] = Inl e'"
    by simp
  have "?t = replay ''table''
      [(''stream'', jump ''SparkleHooves'' 5, Version_Any, ''0ujsszwN8NRY24YaXiTIE2VWDTS'')] []"
    by simp
  then have "table_ok ?t"
    by (simp only: table_ok_replay [OF table_ok_empty])
  from read_succeeds [OF this, of "''table''" "''stream''"] obtain es where
    r: "read_with JSON_parse ''table'' ''stream'' ?t = Inr es"
    by (auto simp: read_instance)
  from decoding_happens_in_read [of _ ?t "''stream''" _ JSON_parse _ "''table''" es] r
  have "\<exists>evs. \<forall>t'. events es t' = Inr evs"
    by blast
  with p a r show ?thesis
    by blast
qed

subsection \<open>C8: how \<open>read\<close> tells the version record from the event records\<close>

text \<open>
  C8, as the claim states it, fails: \<open>read\<close> does not look at the sort key.  A record
  under an event sort key that carries a \<open>VERSION\<close> attribute supplies the version and is
  not decoded as an event, and a record under the reserved sort key without that
  attribute is decoded as an event (here it has no \<open>TYPE\<close>, and \<open>read\<close> fails).
\<close>

theorem read_ignores_the_sort_key:
  "(case read ''table'' ''stream''
           [[(''PK'', S ''stream''), (''SK'', S ''EVENT-0ujsszwN8NRY24YaXiTIE2VWDTS''),
             (''VERSION'', N 7), (''TYPE'', S ''PonyJumped''), (''DATA'', S ''null'')]] of
      Inl e \<Rightarrow> None
    | Inr es \<Rightarrow> Some (version es, events es [])) = Some (7, Inr [])
   \<and> (case read ''table'' ''stream'' [[(''PK'', S ''stream''), (''SK'', S ''_METADATA'')]] of
        Inl e \<Rightarrow> Some e
      | Inr es \<Rightarrow> None) = Some TypeError"
  by code_simp

text \<open>
  C8, amended.  For every table, \<open>read\<close> partitions the records of the stream by the
  presence of the \<open>VERSION\<close> attribute: the last record that carries it, in ascending
  order of the sort key, supplies the version (0 when there is none), and every record
  without it is decoded as an event record, in ascending order of the sort key; the
  first record that cannot be decoded makes \<open>read\<close> fail.  In a table that only \<open>write\<close>
  has filled, the records with a \<open>VERSION\<close> attribute are exactly the records whose sort
  key is the reserved marker \<open>_METADATA\<close>.
\<close>

theorem read_partitions_by_VERSION_attribute:
  "read tbl stream t =
     (case decode_all (filter (\<lambda>i. \<not> has_version i) (query stream t)) of
        Inl e \<Rightarrow> Inl e
      | Inr evs \<Rightarrow>
          Inr \<lparr> name = stream, version = last_version 0 (query stream t),
                events = (\<lambda>_. Inr evs) \<rparr>)
   \<and> sorted (map sort_key_of (query stream t))
   \<and> set (query stream t) = {i \<in> set t. map_of i ''PK'' = Some (S stream)}
   \<and> (\<forall>i \<in> set (replay tbl cs []).
         has_version i \<longleftrightarrow> map_of i ''SK'' = Some (S ''_METADATA''))"
  using read_eq [of tbl stream t] sorted_query [of stream t] set_query [of stream t]
    marker_iff_version [OF table_ok_replay [OF table_ok_empty, of tbl cs]]
  by blast

text \<open>An instance: the version record of a stream after one write.\<close>

theorem read_partitions_by_VERSION_attribute_witness:
  "[(''PK'', S ''stream''), (''SK'', S ''_METADATA''), (''VERSION'', N 1)]
     \<in> set (replay ''table''
         [(''stream'', jump ''SparkleHooves'' 5, Version_Any, ''0ujsszwN8NRY24YaXiTIE2VWDTS'')] [])
   \<and> has_version [(''PK'', S ''stream''), (''SK'', S ''_METADATA''), (''VERSION'', N 1)]"
proof -
  have m: "[(''PK'', S ''stream''), (''SK'', S ''_METADATA''), (''VERSION'', N 1)]
     \<in> set (replay ''table''
         [(''stream'', jump ''SparkleHooves'' 5, Version_Any, ''0ujsszwN8NRY24YaXiTIE2VWDTS'')] [])"
    by code_simp
  from read_partitions_by_VERSION_attribute [of "''table''" "''stream''" "[]"
      "[(''stream'', jump ''SparkleHooves'' 5, Version_Any, ''0ujsszwN8NRY24YaXiTIE2VWDTS'')]"] m
  show ?thesis
    by auto
qed

subsection \<open>C9: a snapshot does not follow the table\<close>

text \<open>
  C9.  A snapshot that \<open>read\<close> returned shows the same name, version and events whatever
  is written afterwards: after a write to the same stream, and after any further history
  of writes, what its holder observes is what was observed on the table that was read.
\<close>

theorem snapshot_is_fixed:
  "read tbl stream t = Inr es \<Longrightarrow>
   observe es (snd (write tbl stream ev x k t)) = observe es t
   \<and> observe es (replay tbl cs t) = observe es t"
  by (auto simp: read_def observe_def split: sum.splits)

text \<open>
  An instance: the snapshot of a new stream still shows version 0 and no event after a
  write to the stream, while a second \<open>read\<close> reports version 1.
\<close>

theorem snapshot_is_fixed_witness:
  "read ''table'' ''stream'' [] = Inr \<lparr> name = ''stream'', version = 0, events = (\<lambda>_. Inr []) \<rparr>
   \<and> observe \<lparr> name = ''stream'', version = 0, events = (\<lambda>_. Inr []) \<rparr>
        (snd (write ''table'' ''stream'' (jump ''SparkleHooves'' 5) Version_Any
               ''0ujsszwN8NRY24YaXiTIE2VWDTS'' []))
       = (''stream'', 0, Inr [])
   \<and> (case read ''table'' ''stream''
              (snd (write ''table'' ''stream'' (jump ''SparkleHooves'' 5) Version_Any
                     ''0ujsszwN8NRY24YaXiTIE2VWDTS'' [])) of
         Inl e \<Rightarrow> None
       | Inr es \<Rightarrow> Some (version es)) = Some 1"
proof -
  have r: "read ''table'' ''stream'' [] = Inr \<lparr> name = ''stream'', version = 0, events = (\<lambda>_. Inr []) \<rparr>"
    by (simp add: read_def query_def)
  have o: "observe \<lparr> name = ''stream'', version = 0, events = (\<lambda>_. Inr []) \<rparr> [] = (''stream'', 0, Inr [])"
    by (simp add: observe_def)
  have v: "(case read ''table'' ''stream''
              (snd (write ''table'' ''stream'' (jump ''SparkleHooves'' 5) Version_Any
                     ''0ujsszwN8NRY24YaXiTIE2VWDTS'' [])) of
         Inl e \<Rightarrow> None
       | Inr es \<Rightarrow> Some (version es)) = Some 1"
    by code_simp
  from snapshot_is_fixed [OF r, of "jump ''SparkleHooves'' 5" Version_Any
      "''0ujsszwN8NRY24YaXiTIE2VWDTS''" "[]"] r o v
  show ?thesis
    by simp
qed

subsection \<open>C10: expected versions below zero\<close>

text \<open>
  C10, as the claim states it, fails for a negative number above \<open>-1\<close>: the guard of
  \<open>metadataUpdate\<close> is \<open>expectedVersion > -1\<close>, so \<open>-0.5\<close> gets the condition
  \<open>#version = :expected\<close> and the write is refused where an unconditional one succeeds.
\<close>

theorem negative_fraction_is_checked:
  "(- 1 / 2 :: rat) < 0 \<and> (- 1 / 2 :: rat) \<noteq> Version_None
   \<and> condition_of (metadataUpdate ''table'' ''stream'' (- 1 / 2)) = Some ''#version = :expected''
   \<and> condition_of (metadataUpdate ''table'' ''stream'' Version_Any) = None
   \<and> fst (write ''table'' ''stream'' (jump ''SparkleHooves'' 5) (- 1 / 2)
            ''0ujsszwN8NRY24YaXiTIE2VWDTS'' []) = Inl ConcurrencyError
   \<and> fst (write ''table'' ''stream'' (jump ''SparkleHooves'' 5) Version_Any
            ''0ujsszwN8NRY24YaXiTIE2VWDTS'' []) = Inr ()"
  by code_simp

text \<open>
  C10, amended.  For every \<open>expectedVersion\<close> that is at most \<open>-1\<close> and is not \<open>-2\<close>
  (\<open>Version.None\<close>), also outside the enumeration such as \<open>-3\<close>, \<open>metadataUpdate\<close>
  attaches no condition and builds the update it builds for \<open>Version.Any\<close>, so \<open>write\<close>
  behaves as with \<open>Version.Any\<close>.
\<close>

theorem unconditional_below_minus_one:
  "x \<le> - 1 \<Longrightarrow> x \<noteq> Version_None \<Longrightarrow>
   condition_of (metadataUpdate tbl stream x) = None
   \<and> metadataUpdate tbl stream x = metadataUpdate tbl stream Version_Any
   \<and> write tbl stream ev x k t = write tbl stream ev Version_Any k t"
  by (simp add: write_def metadataUpdate_def Version_Any_def Version_None_def)

text \<open>An instance: \<open>-3\<close>.\<close>

theorem unconditional_below_minus_one_witness:
  "(- 3 :: rat) \<le> - 1 \<and> (- 3 :: rat) \<noteq> Version_None
   \<and> condition_of (metadataUpdate ''table'' ''stream'' (- 3)) = None
   \<and> write ''table'' ''stream'' (jump ''SparkleHooves'' 5) (- 3) ''0ujsszwN8NRY24YaXiTIE2VWDTS'' []
       = write ''table'' ''stream'' (jump ''SparkleHooves'' 5) Version_Any
           ''0ujsszwN8NRY24YaXiTIE2VWDTS'' []"
proof -
  have h: "(- 3 :: rat) \<le> - 1" "(- 3 :: rat) \<noteq> Version_None"
    by (simp_all add: Version_None_def)
  from unconditional_below_minus_one [OF h, of "''table''" "''stream''"
      "jump ''SparkleHooves'' 5" "''0ujsszwN8NRY24YaXiTIE2VWDTS''" "[]"] h
  show ?thesis
    by blast
qed

end
